theory Spec2Isabelle
  imports Complex_Main
begin

section \<open>Data model\<close>

text \<open>
  A Python \<open>str\<close> is a sequence of Unicode code points, so a string is a list of
  naturals. \<open>str\<close> embeds an ASCII literal of the source.
\<close>

type_synonym pystr = "nat list"

definition str :: "string \<Rightarrow> pystr" where
  "str s = map of_char s"

text \<open>
  The value \<open>response.json()\<close> returns. Non-integer JSON numbers (Python floats) are
  left out of the model. An object is kept as the association list of its items, looked
  up with \<open>map_of\<close>.
\<close>

datatype json =
    JNull
  | JBool bool
  | JInt int
  | JString pystr
  | JArray "json list"
  | JObject "(pystr \<times> json) list"

text \<open>
  The exceptions of the run. \<open>RequestException\<close> stands for the whole class
  \<open>requests.exceptions.RequestException\<close>: connection errors and timeouts of
  \<open>requests.get\<close>, the \<open>HTTPError\<close> of \<open>raise_for_status\<close>, and the
  \<open>JSONDecodeError\<close> of \<open>response.json()\<close> (a subclass of it since requests 2.27).
  \<open>IOError\<close> is handled where it arises and shows only as the event \<open>Error_saving\<close>.
\<close>

datatype py_error =
    RequestException
  | KeyError pystr
  | TypeError
  | ZeroDivisionError
  | UnicodeEncodeError

text \<open>
  What the server does with one GET: the transport fails, or a response arrives with a
  status code and a body, which is JSON text (\<open>Some\<close>) or not (\<open>None\<close>).
\<close>

datatype reply = Raises | Reply int "json option"

text \<open>The output file's directory: \<open>open(output_file, 'w')\<close> succeeds or raises IOError.\<close>

datatype sink = Writable | Unwritable

type_synonym mapping = "(json \<times> json) list"

text \<open>
  The observable effects, in order: every GET with its \<open>limit\<close> and \<open>offset\<close>
  parameters, the three error reports printed by the handlers, the opening (truncation)
  of the output file and the completed \<open>json.dump\<close>. Progress prints and sleeps are
  not recorded.
\<close>

datatype event =
    Get int int
  | Error_initial
  | Error_batch int
  | Open_output
  | Dump mapping
  | Error_saving

text \<open>
  How a piece of the program ends: normally with a value, with an exception, or still
  waiting for a reply the finite script of replies does not hold.
\<close>

datatype 'a status = Done 'a | Raised py_error | Awaiting

type_synonym 'a run = "'a status \<times> event list"

definition emit :: "event list \<Rightarrow> 'a run \<Rightarrow> 'a run" where
  "emit es r = (fst r, es @ snd r)"

section \<open>Python primitives\<close>

text \<open>\<open>x[k]\<close> for a string key \<open>k\<close>: only a dict accepts it.\<close>

fun getitem :: "json \<Rightarrow> pystr \<Rightarrow> py_error + json" where
  "getitem (JObject kvs) k = (case map_of kvs k of None \<Rightarrow> Inl (KeyError k) | Some v \<Rightarrow> Inr v)"
| "getitem _ k = Inl TypeError"

text \<open>\<open>for system in x\<close>: a list gives its elements, a dict its keys, a string its characters.\<close>

fun iter :: "json \<Rightarrow> py_error + json list" where
  "iter (JArray xs) = Inr xs"
| "iter (JObject kvs) = Inr (map (\<lambda>kv. JString (fst kv)) kvs)"
| "iter (JString s) = Inr (map (\<lambda>c. JString [c]) s)"
| "iter _ = Inl TypeError"

text \<open>
  A dict key must be hashable; \<open>True\<close> and \<open>False\<close> are the keys \<open>1\<close> and \<open>0\<close>.
\<close>

fun hashable :: "json \<Rightarrow> py_error + json" where
  "hashable (JArray xs) = Inl TypeError"
| "hashable (JObject kvs) = Inl TypeError"
| "hashable (JBool b) = Inr (JInt (if b then 1 else 0))"
| "hashable j = Inr j"

text \<open>\<open>d[k] = v\<close> on an insertion-ordered dict: an existing key keeps its place.\<close>

fun setitem :: "('k \<times> 'v) list \<Rightarrow> 'k \<Rightarrow> 'v \<Rightarrow> ('k \<times> 'v) list" where
  "setitem [] k v = [(k, v)]"
| "setitem (p # ps) k v = (if fst p = k then (k, v) # ps else p # setitem ps k v)"

text \<open>The integer a value is in arithmetic, \<open>bool\<close> being a subclass of \<open>int\<close>.\<close>

fun number :: "json \<Rightarrow> int option" where
  "number (JInt i) = Some i"
| "number (JBool b) = Some (if b then 1 else 0)"
| "number _ = None"

text \<open>Strict UTF-8 cannot encode a surrogate code point.\<close>

definition surrogate :: "nat \<Rightarrow> bool" where
  "surrogate c = (55296 \<le> c \<and> c \<le> 57343)"

fun encodable :: "json \<Rightarrow> bool" where
  "encodable (JString s) = (\<forall>c \<in> set s. \<not> surrogate c)"
| "encodable (JArray xs) = (\<forall>x \<in> set xs. encodable x)"
| "encodable (JObject kvs) =
     (\<forall>kv \<in> set kvs. (\<forall>c \<in> set (fst kv). \<not> surrogate c) \<and> encodable (snd kv))"
| "encodable _ = True"

section \<open>The collector\<close>

text \<open>
  Lines 25-27 and 51-53: \<open>requests.get\<close>, \<open>raise_for_status\<close> (which raises for the
  statuses 400 to 599 only) and \<open>response.json()\<close>.
\<close>

fun request_json :: "reply \<Rightarrow> py_error + json" where
  "request_json Raises = Inl RequestException"
| "request_json (Reply status body) =
     (if 400 \<le> status \<and> status < 600 then Inl RequestException
      else case body of None \<Rightarrow> Inl RequestException | Some j \<Rightarrow> Inr j)"

text \<open>
  Lines 39 and 57, \<open>solar_systems_mapping[system["name"]] = system["id"]\<close>: Python
  evaluates the right-hand side first, then the subscript, then stores.
\<close>

definition store_system :: "mapping \<Rightarrow> json \<Rightarrow> py_error + mapping" where
  "store_system m system =
     (case getitem system (str ''id'') of
        Inl e \<Rightarrow> Inl e
      | Inr v \<Rightarrow>
          (case getitem system (str ''name'') of
             Inl e \<Rightarrow> Inl e
           | Inr n \<Rightarrow>
               (case hashable n of
                  Inl e \<Rightarrow> Inl e
                | Inr k \<Rightarrow> Inr (setitem m k v))))"

fun store_systems :: "mapping \<Rightarrow> json list \<Rightarrow> py_error + mapping" where
  "store_systems m [] = Inr m"
| "store_systems m (s # ss) =
     (case store_system m s of Inl e \<Rightarrow> Inl e | Inr m' \<Rightarrow> store_systems m' ss)"

text \<open>Lines 38-39 and 56-57: the loop over \<open>data["data"]\<close>.\<close>

definition process_batch :: "mapping \<Rightarrow> json \<Rightarrow> py_error + mapping" where
  "process_batch m data =
     (case getitem data (str ''data'') of
        Inl e \<Rightarrow> Inl e
      | Inr d \<Rightarrow> (case iter d of Inl e \<Rightarrow> Inl e | Inr systems \<Rightarrow> store_systems m systems))"

text \<open>Lines 51-57: the body of the inner \<open>try\<close>.\<close>

definition fetch_batch :: "mapping \<Rightarrow> reply \<Rightarrow> py_error + mapping" where
  "fetch_batch m r =
     (case request_json r of Inl e \<Rightarrow> Inl e | Inr batch_data \<Rightarrow> process_batch m batch_data)"

text \<open>
  Lines 47-72: the \<open>while\<close> loop. Each pass sends one GET and takes the next reply of
  the script; the handler of the inner \<open>try\<close> catches \<open>RequestException\<close> only and
  goes round again with the offset and the mapping as they were.
\<close>

fun fetch_batches :: "int \<Rightarrow> int \<Rightarrow> int \<Rightarrow> mapping \<Rightarrow> reply list \<Rightarrow> mapping run" where
  "fetch_batches total_systems limit offset m [] =
     (if offset < total_systems then (Awaiting, [Get limit offset]) else (Done m, []))"
| "fetch_batches total_systems limit offset m (r # rs) =
     (if offset < total_systems then
        emit [Get limit offset]
          (case fetch_batch m r of
             Inr m' \<Rightarrow> fetch_batches total_systems limit (offset + limit) m' rs
           | Inl e \<Rightarrow>
               if e = RequestException
               then emit [Error_batch offset] (fetch_batches total_systems limit offset m rs)
               else (Raised e, []))
      else (Done m, []))"

text \<open>Lines 30-31: the two metadata reads.\<close>

definition read_metadata :: "json \<Rightarrow> py_error + json \<times> json" where
  "read_metadata data =
     (case getitem data (str ''metadata'') of
        Inl e \<Rightarrow> Inl e
      | Inr md \<Rightarrow>
          (case getitem md (str ''total'') of
             Inl e \<Rightarrow> Inl e
           | Inr total_systems \<Rightarrow>
               (case getitem md (str ''limit'') of
                  Inl e \<Rightarrow> Inl e
                | Inr limit \<Rightarrow> Inr (total_systems, limit))))"

text \<open>
  Line 35 prints \<open>(total_systems + limit - 1) // limit\<close>: a TypeError unless both are
  numbers, a ZeroDivisionError when \<open>limit\<close> is zero. The integers are returned with
  the estimate.
\<close>

definition estimate :: "json \<Rightarrow> json \<Rightarrow> py_error + int \<times> int \<times> int" where
  "estimate total_systems limit =
     (case number total_systems of
        None \<Rightarrow> Inl TypeError
      | Some t \<Rightarrow>
          (case number limit of
             None \<Rightarrow> Inl TypeError
           | Some l \<Rightarrow>
               if l = 0 then Inl ZeroDivisionError else Inr (t, l, (t + l - 1) div l)))"

text \<open>Lines 25-72: the body of the outer \<open>try\<close>.\<close>

fun collect :: "reply list \<Rightarrow> mapping run" where
  "collect [] = (Awaiting, [Get 100 0])"
| "collect (r # rs) =
     emit [Get 100 0]
       (case request_json r of
          Inl e \<Rightarrow> (Raised e, [])
        | Inr data \<Rightarrow>
            (case read_metadata data of
               Inl e \<Rightarrow> (Raised e, [])
             | Inr (total_systems, limit) \<Rightarrow>
                 (case estimate total_systems limit of
                    Inl e \<Rightarrow> (Raised e, [])
                  | Inr (t, l, n) \<Rightarrow>
                      (case process_batch [] data of
                         Inl e \<Rightarrow> (Raised e, [])
                       | Inr m \<Rightarrow> fetch_batches t l l m rs))))"

text \<open>
  Lines 81-86: the file is opened, which may raise IOError, and \<open>json.dump\<close> writes the
  text with \<open>ensure_ascii=False\<close> through the strict UTF-8 encoder, which raises
  UnicodeEncodeError (not an IOError) on a surrogate.
\<close>

definition save :: "sink \<Rightarrow> mapping \<Rightarrow> mapping run" where
  "save fs m =
     (case fs of
        Unwritable \<Rightarrow> (Done m, [Error_saving])
      | Writable \<Rightarrow>
          if \<forall>kv \<in> set m. encodable (fst kv) \<and> encodable (snd kv)
          then (Done m, [Open_output, Dump m])
          else (Raised UnicodeEncodeError, [Open_output]))"

text \<open>
  The function: the outer handler (lines 74-76) returns the empty dict on a
  \<open>RequestException\<close> and lets every other exception through.
\<close>

definition fetch_all_solar_systems :: "sink \<Rightarrow> reply list \<Rightarrow> mapping run" where
  "fetch_all_solar_systems fs rs =
     (case collect rs of
        (Raised e, evs) \<Rightarrow>
          if e = RequestException then (Done [], evs @ [Error_initial]) else (Raised e, evs)
      | (Awaiting, evs) \<Rightarrow> (Awaiting, evs)
      | (Done m, evs) \<Rightarrow> emit evs (save fs m))"

section \<open>Vocabulary of the statements\<close>

definition request_fails :: "reply \<Rightarrow> bool" where
  "request_fails r = (case request_json r of Inl e \<Rightarrow> True | Inr j \<Rightarrow> False)"

fun requests_of :: "event list \<Rightarrow> (int \<times> int) list" where
  "requests_of [] = []"
| "requests_of (Get l off # es) = (l, off) # requests_of es"
| "requests_of (e # es) = requests_of es"

fun file_events :: "event list \<Rightarrow> event list" where
  "file_events [] = []"
| "file_events (Open_output # es) = Open_output # file_events es"
| "file_events (Dump m # es) = Dump m # file_events es"
| "file_events (e # es) = file_events es"

text \<open>
  A well-formed item and a well-formed page with status 200, as section 6 of the
  specification draws them.
\<close>

definition system :: "string \<Rightarrow> int \<Rightarrow> json" where
  "system name ident = JObject [(str ''name'', JString (str name)), (str ''id'', JInt ident)]"

definition page :: "int \<Rightarrow> int \<Rightarrow> json list \<Rightarrow> reply" where
  "page total_systems limit systems =
     Reply 200 (Some (JObject
       [(str ''metadata'', JObject [(str ''total'', JInt total_systems), (str ''limit'', JInt limit)]),
        (str ''data'', JArray systems)]))"

text \<open>
  The total and the limit the first reply reports, when lines 25-35 get that far with
  integers.
\<close>

definition metadata_of :: "reply \<Rightarrow> (int \<times> int) option" where
  "metadata_of r =
     (case request_json r of
        Inl e \<Rightarrow> None
      | Inr data \<Rightarrow>
          (case read_metadata data of
             Inl e \<Rightarrow> None
           | Inr (total_systems, limit) \<Rightarrow>
               (case number total_systems of
                  None \<Rightarrow> None
                | Some t \<Rightarrow> (case number limit of None \<Rightarrow> None | Some l \<Rightarrow> Some (t, l)))))"

text \<open>A reply that is received and whose page is stored without an exception.\<close>

definition succeeds :: "reply \<Rightarrow> bool" where
  "succeeds r = (case fetch_batch [] r of Inl e \<Rightarrow> False | Inr m \<Rightarrow> True)"

text \<open>The ceiling of a quotient of integers.\<close>

definition ceil_div :: "int \<Rightarrow> int \<Rightarrow> int" where
  "ceil_div a b = - ((- a) div b)"

text \<open>
  The name and id an item contributes, the entries of a fetched page in page order, and
  the entries of all pages a run has fetched: the replies it has consumed, one for each
  request, in fetch order. A reply that fails contributes nothing.
\<close>

definition entry :: "json \<Rightarrow> (json \<times> json) list" where
  "entry x =
     (case getitem x (str ''name'') of
        Inl e \<Rightarrow> []
      | Inr n \<Rightarrow>
          (case getitem x (str ''id'') of
             Inl e \<Rightarrow> []
           | Inr v \<Rightarrow> (case hashable n of Inl e \<Rightarrow> [] | Inr k \<Rightarrow> [(k, v)])))"

definition page_entries :: "reply \<Rightarrow> (json \<times> json) list" where
  "page_entries r =
     (case request_json r of
        Inl e \<Rightarrow> []
      | Inr data \<Rightarrow>
          (case getitem data (str ''data'') of
             Inl e \<Rightarrow> []
           | Inr d \<Rightarrow> (case iter d of Inl e \<Rightarrow> [] | Inr xs \<Rightarrow> concat (map entry xs))))"

definition fetched_entries :: "reply list \<Rightarrow> (json \<times> json) list" where
  "fetched_entries rs =
     concat (map page_entries (take (length (requests_of (snd (collect rs)))) rs))"

text \<open>Lines 98-111: what \<open>main\<close> prints about the mapping it gets.\<close>

datatype verdict = Success nat | Failed

definition main :: "sink \<Rightarrow> reply list \<Rightarrow> verdict status" where
  "main fs rs =
     (case fst (fetch_all_solar_systems fs rs) of
        Done mapping \<Rightarrow> Done (if mapping \<noteq> [] then Success (length mapping) else Failed)
      | Raised e \<Rightarrow> Raised e
      | Awaiting \<Rightarrow> Awaiting)"

text \<open>
  A later page with its \<open>metadata\<close> replaced by another value, and a script whose
  pages are so changed one by one.
\<close>

fun with_metadata :: "json \<Rightarrow> reply \<Rightarrow> reply" where
  "with_metadata md (Reply status (Some (JObject kvs))) =
     Reply status (Some (JObject
       ((str ''metadata'', md) # filter (\<lambda>kv. fst kv \<noteq> str ''metadata'') kvs)))"
| "with_metadata md r = r"

fun tamper :: "json list \<Rightarrow> reply list \<Rightarrow> reply list" where
  "tamper (md # mds) (r # rs) = with_metadata md r # tamper mds rs"
| "tamper mds rs = rs"

text \<open>
  A mapping holds a list of entries when it has one item for each key of the list, with
  the value of the key's last entry.
\<close>

definition holds :: "mapping \<Rightarrow> (json \<times> json) list \<Rightarrow> bool" where
  "holds m es \<longleftrightarrow>
     map_of m = map_of (rev es) \<and> distinct (map fst m) \<and> set (map fst m) = fst ` set es"

section \<open>The output format\<close>

text \<open>
  Line 83, \<open>json.dump(solar_systems_mapping, f, indent=2, ensure_ascii=False)\<close>, for a
  mapping from string names to integer ids, as the encoder of the standard library
  writes it. With \<open>ensure_ascii=False\<close> a string keeps every character except the
  quote, the backslash and the control characters below 32, which are escaped (the short
  escapes, else \<open>\u00XX\<close> in lower-case hexadecimal). Characters are written as their
  code points: 34 is the quote, 92 the backslash, 10 the newline, 32 the space, 58 the
  colon, 44 the comma, 123 and 125 the braces.
\<close>

definition hexdigit :: "nat \<Rightarrow> nat" where
  "hexdigit d = (if d < 10 then 48 + d else 87 + d)"

definition escape :: "nat \<Rightarrow> pystr" where
  "escape c =
     (if c = 34 then [92, 34]
      else if c = 92 then [92, 92]
      else if c = 10 then [92, 110]
      else if c = 13 then [92, 114]
      else if c = 9 then [92, 116]
      else if c = 8 then [92, 98]
      else if c = 12 then [92, 102]
      else if c < 32 then [92, 117, 48, 48, hexdigit (c div 16), hexdigit (c mod 16)]
      else [c])"

definition encode_basestring :: "pystr \<Rightarrow> pystr" where
  "encode_basestring s = [34] @ concat (map escape s) @ [34]"

text \<open>
  The decimal digits of an integer (\<open>int.__repr__\<close>). The interpreter's optional limit
  on the length of such conversions is not part of the model.
\<close>

function decimal :: "nat \<Rightarrow> pystr" where
  "decimal n = (if n < 10 then [48 + n] else decimal (n div 10) @ [48 + n mod 10])"
  by pat_completeness auto
termination
  by (relation "measure id") auto

declare decimal.simps [simp del]

definition repr_int :: "int \<Rightarrow> pystr" where
  "repr_int i = (if i < 0 then 45 # decimal (nat (- i)) else decimal (nat i))"

text \<open>
  With \<open>indent=2\<close> an empty dict is \<open>{}\<close>; otherwise every item stands on a line of
  its own, indented by two spaces, as \<open>"key": value\<close>, the items are separated by a
  comma, and the closing brace follows a newline.
\<close>

definition dump_item :: "pystr \<times> int \<Rightarrow> pystr" where
  "dump_item kv = encode_basestring (fst kv) @ [58, 32] @ repr_int (snd kv)"

fun dump_items :: "(pystr \<times> int) list \<Rightarrow> pystr" where
  "dump_items [] = []"
| "dump_items [kv] = dump_item kv"
| "dump_items (kv # kvs) = dump_item kv @ [44, 10, 32, 32] @ dump_items kvs"

definition dumps :: "(pystr \<times> int) list \<Rightarrow> pystr" where
  "dumps d = (if d = [] then [123, 125] else [123, 10, 32, 32] @ dump_items d @ [10, 125])"

text \<open>
  The text goes to the file through the strict UTF-8 encoder of \<open>open(..., 'w',
  encoding='utf-8')\<close>, which raises UnicodeEncodeError on a surrogate. Read back, an
  encoded text is the text that was written.
\<close>

definition write_text :: "pystr \<Rightarrow> py_error + pystr" where
  "write_text t = (if \<exists>c \<in> set t. surrogate c then Inl UnicodeEncodeError else Inr t)"

text \<open>
  Reading back with \<open>json.load\<close>, for a JSON object whose values are integers: the
  scanner of the standard library skips blanks, reads a string up to its closing quote
  undoing the escapes (a raw control character is an error), and reads a number as an
  integer when it has no fraction and no exponent. \<open>None\<close> is a text the reader
  rejects or one outside this fragment (other values, escaped surrogate pairs). The
  pairs read make a dict, so a repeated key keeps its last value.
\<close>

definition whitespace :: "nat \<Rightarrow> bool" where
  "whitespace c = (c = 32 \<or> c = 9 \<or> c = 10 \<or> c = 13)"

definition skip_ws :: "pystr \<Rightarrow> pystr" where
  "skip_ws cs = dropWhile whitespace cs"

definition unhex :: "nat \<Rightarrow> nat option" where
  "unhex c =
     (if 48 \<le> c \<and> c \<le> 57 then Some (c - 48)
      else if 97 \<le> c \<and> c \<le> 102 then Some (c - 87)
      else if 65 \<le> c \<and> c \<le> 70 then Some (c - 55)
      else None)"

definition unescape :: "nat \<Rightarrow> nat option" where
  "unescape c =
     (if c = 34 then Some 34
      else if c = 92 then Some 92
      else if c = 47 then Some 47
      else if c = 98 then Some 8
      else if c = 102 then Some 12
      else if c = 110 then Some 10
      else if c = 114 then Some 13
      else if c = 116 then Some 9
      else None)"

definition prepend :: "nat \<Rightarrow> (pystr \<times> pystr) option \<Rightarrow> (pystr \<times> pystr) option" where
  "prepend c r = (case r of None \<Rightarrow> None | Some (s, rest) \<Rightarrow> Some (c # s, rest))"

fun scanstring :: "pystr \<Rightarrow> (pystr \<times> pystr) option" where
  "scanstring [] = None"
| "scanstring (c # cs) =
     (if c = 34 then Some ([], cs)
      else if c = 92 then
        (case cs of
           [] \<Rightarrow> None
         | e # cs1 \<Rightarrow>
             if e = 117 then
               (case cs1 of
                  h1 # h2 # h3 # h4 # cs2 \<Rightarrow>
                    (case (unhex h1, unhex h2, unhex h3, unhex h4) of
                       (Some a, Some b, Some c', Some d) \<Rightarrow>
                         if surrogate (4096 * a + 256 * b + 16 * c' + d) then None
                         else prepend (4096 * a + 256 * b + 16 * c' + d) (scanstring cs2)
                     | _ \<Rightarrow> None)
                | _ \<Rightarrow> None)
             else (case unescape e of None \<Rightarrow> None | Some x \<Rightarrow> prepend x (scanstring cs1)))
      else if c < 32 then None
      else prepend c (scanstring cs))"

definition digit :: "nat \<Rightarrow> bool" where
  "digit c = (48 \<le> c \<and> c \<le> 57)"

definition scan_nat :: "pystr \<Rightarrow> (nat \<times> pystr) option" where
  "scan_nat cs =
     (let ds = takeWhile digit cs; rest = dropWhile digit cs in
      if ds = [] \<or> (hd ds = 48 \<and> tl ds \<noteq> []) then None
      else case rest of
             [] \<Rightarrow> Some (foldl (\<lambda>a d. 10 * a + (d - 48)) 0 ds, rest)
           | c # cs' \<Rightarrow>
               if c = 46 \<or> c = 101 \<or> c = 69 then None
               else Some (foldl (\<lambda>a d. 10 * a + (d - 48)) 0 ds, rest))"

definition scan_int :: "pystr \<Rightarrow> (int \<times> pystr) option" where
  "scan_int cs =
     (case cs of
        [] \<Rightarrow> None
      | c # cs' \<Rightarrow>
          if c = 45 then map_option (\<lambda>(n, rest). (- int n, rest)) (scan_nat cs')
          else map_option (\<lambda>(n, rest). (int n, rest)) (scan_nat cs))"

lemma skip_ws_length: "length (skip_ws cs) \<le> length cs"
  by (simp add: skip_ws_def length_dropWhile_le)

lemma scanstring_length: "scanstring cs = Some (s, rest) \<Longrightarrow> length rest < length cs"
proof (induction cs arbitrary: s rest rule: scanstring.induct)
  case 1
  then show ?case by simp
next
  case (2 c cs)
  then show ?case
    by (fastforce simp: prepend_def split: if_splits list.splits option.splits prod.splits)
qed

lemma scan_nat_length: "scan_nat cs = Some (n, rest) \<Longrightarrow> length rest \<le> length cs"
  by (auto simp: scan_nat_def Let_def length_dropWhile_le split: if_splits list.splits)

lemma scan_int_length: "scan_int cs = Some (n, rest) \<Longrightarrow> length rest \<le> length cs"
  by (auto simp: scan_int_def split: list.splits if_splits dest!: scan_nat_length)


function parse_members :: "pystr \<Rightarrow> ((pystr \<times> int) list \<times> pystr) option" where
  "parse_members cs =
     (case cs of
        [] \<Rightarrow> None
      | q # cs1 \<Rightarrow>
          if q \<noteq> 34 then None
          else
            (case scanstring cs1 of
               None \<Rightarrow> None
             | Some (k, cs2) \<Rightarrow>
                 (case skip_ws cs2 of
                    [] \<Rightarrow> None
                  | colon # cs3 \<Rightarrow>
                      if colon \<noteq> 58 then None
                      else
                        (case scan_int (skip_ws cs3) of
                           None \<Rightarrow> None
                         | Some (v, cs4) \<Rightarrow>
                             (case skip_ws cs4 of
                                [] \<Rightarrow> None
                              | sep # cs5 \<Rightarrow>
                                  if sep = 125 then Some ([(k, v)], cs5)
                                  else if sep = 44 then
                                    (case parse_members (skip_ws cs5) of
                                       None \<Rightarrow> None
                                     | Some (kvs, rest) \<Rightarrow> Some ((k, v) # kvs, rest))
                                  else None)))))"
  by pat_completeness auto
termination
proof (relation "measure length", goal_cases)
  case 1
  show ?case by simp
next
  case (2 cs q cs1 x k cs2 colon cs3 y v cs4 sep cs5)
  then show ?case
    using skip_ws_length [of cs2] skip_ws_length [of cs3] skip_ws_length [of cs4]
      skip_ws_length [of cs5] scanstring_length [of cs1 k cs2]
      scan_int_length [of "skip_ws cs3" v cs4]
    by simp
qed

declare parse_members.simps [simp del]

definition loads :: "pystr \<Rightarrow> (pystr \<times> int) list option" where
  "loads t =
     (case skip_ws t of
        [] \<Rightarrow> None
      | c # cs \<Rightarrow>
          if c \<noteq> 123 then None
          else
            (case skip_ws cs of
               [] \<Rightarrow> None
             | c1 # cs1 \<Rightarrow>
                 if c1 = 125 then (if skip_ws cs1 = [] then Some [] else None)
                 else
                   (case parse_members (skip_ws cs) of
                      None \<Rightarrow> None
                    | Some (kvs, rest) \<Rightarrow>
                        if skip_ws rest = []
                        then Some (foldl (\<lambda>d kv. setitem d (fst kv) (snd kv)) [] kvs)
                        else None)))"

section \<open>Basic facts\<close>

lemma request_fails_iff:
  "request_fails r \<longleftrightarrow>
     r = Raises \<or> (\<exists>s b. r = Reply s b \<and> ((400 \<le> s \<and> s < 600) \<or> b = None))"
  by (cases r) (auto simp: request_fails_def split: option.splits)

lemma request_json_error: "request_json r = Inl e \<Longrightarrow> e = RequestException"
  by (cases r) (auto split: if_splits option.splits)

lemma request_fails_json: "request_fails r \<longleftrightarrow> request_json r = Inl RequestException"
  by (cases "request_json r") (auto simp: request_fails_def dest: request_json_error)

section \<open>Failure of the initial request\<close>

text \<open>
  Claim C1, as written, fails. A 200 response whose body has no \<open>metadata\<close> key makes
  line 30 raise KeyError, which the handler for \<open>RequestException\<close> does not catch:
  the call raises instead of returning the empty mapping. A status outside 400-599 (here
  304) passes \<open>raise_for_status\<close>, so a non-2xx response with a page as body is
  processed like any other.
\<close>

theorem initial_failure_counterexample:
  "fetch_all_solar_systems Writable [Reply 200 (Some (JObject [(str ''data'', JArray [])]))]
     = (Raised (KeyError (str ''metadata'')), [Get 100 0])
   \<and> fetch_all_solar_systems Writable
       [Reply 304 (Some (JObject
          [(str ''metadata'', JObject [(str ''total'', JInt 1), (str ''limit'', JInt 100)]),
           (str ''data'', JArray [JObject [(str ''name'', JString (str ''A'')), (str ''id'', JInt 7)]])]))]
     = (Done [(JString (str ''A''), JInt 7)],
        [Get 100 0, Open_output, Dump [(JString (str ''A''), JInt 7)]])"
  by (simp add: fetch_all_solar_systems_def emit_def read_metadata_def estimate_def
      process_batch_def store_system_def save_def str_def surrogate_def)

text \<open>
  Claim C1, amended. When the initial request raises a \<open>RequestException\<close> (transport
  error, status 400 to 599, or a body that is not JSON), the function returns the empty
  mapping after that single request and the report of the error, and the output file is
  never opened, whatever the later replies and the sink. When the body is a JSON object
  without the \<open>metadata\<close> key, or its metadata object lacks \<open>total\<close> or
  \<open>limit\<close>, the function raises the KeyError of the missing key; the file is not
  opened either.
\<close>

theorem initial_failure_aborts:
  "((r = Raises \<or> (\<exists>s b. r = Reply s b \<and> ((400 \<le> s \<and> s < 600) \<or> b = None))) \<longrightarrow>
      fetch_all_solar_systems fs (r # rs) = (Done [], [Get 100 0, Error_initial]))
   \<and> (\<not> (400 \<le> s \<and> s < 600) \<and> map_of kvs (str ''metadata'') = None \<longrightarrow>
      fetch_all_solar_systems fs (Reply s (Some (JObject kvs)) # rs)
        = (Raised (KeyError (str ''metadata'')), [Get 100 0]))
   \<and> (\<not> (400 \<le> s \<and> s < 600) \<and> map_of kvs (str ''metadata'') = Some (JObject md)
        \<and> (map_of md (str ''total'') = None \<or> map_of md (str ''limit'') = None) \<longrightarrow>
      fetch_all_solar_systems fs (Reply s (Some (JObject kvs)) # rs)
        = (Raised (KeyError (if map_of md (str ''total'') = None then str ''total'' else str ''limit'')),
           [Get 100 0]))"
  by (auto simp: fetch_all_solar_systems_def emit_def read_metadata_def split: option.splits)

theorem initial_failure_aborts_witness:
  "fetch_all_solar_systems Unwritable [Reply 503 None, Raises] = (Done [], [Get 100 0, Error_initial])
   \<and> fetch_all_solar_systems Unwritable [Reply 200 (Some (JObject [])), Raises]
        = (Raised (KeyError (str ''metadata'')), [Get 100 0])
   \<and> fetch_all_solar_systems Writable
        [Reply 200 (Some (JObject [(str ''metadata'', JObject [(str ''total'', JInt 3)])]))]
        = (Raised (KeyError (str ''limit'')), [Get 100 0])"
  using initial_failure_aborts [where r = "Reply 503 None" and fs = Unwritable and rs = "[Raises]"
      and s = 200 and kvs = "[]"]
    initial_failure_aborts [where r = Raises and fs = Writable and rs = "[]" and s = 200
      and kvs = "[(str ''metadata'', JObject [(str ''total'', JInt 3)])]"
      and md = "[(str ''total'', JInt 3)]"]
  by (simp add: str_def)

section \<open>Exceptions the handlers let through\<close>

lemma getitem_error: "getitem j k = Inl e \<Longrightarrow> e \<noteq> RequestException"
  by (cases j) (auto split: option.splits)

lemma iter_error: "iter j = Inl e \<Longrightarrow> e \<noteq> RequestException"
  by (cases j) auto

lemma hashable_error: "hashable j = Inl e \<Longrightarrow> e \<noteq> RequestException"
  by (cases j) auto

lemma store_system_error: "store_system m s = Inl e \<Longrightarrow> e \<noteq> RequestException"
  by (auto simp: store_system_def split: sum.splits dest: getitem_error hashable_error)

lemma store_systems_error: "store_systems m ss = Inl e \<Longrightarrow> e \<noteq> RequestException"
  by (induction ss arbitrary: m) (auto split: sum.splits dest: store_system_error)

lemma process_batch_error: "process_batch m d = Inl e \<Longrightarrow> e \<noteq> RequestException"
  by (auto simp: process_batch_def split: sum.splits
      dest: getitem_error iter_error store_systems_error)

lemma fetch_batch_fails: "fetch_batch m r = Inl RequestException \<longleftrightarrow> request_fails r"
  by (auto simp: fetch_batch_def request_fails_def split: sum.splits
      dest: process_batch_error request_json_error)

lemma fetch_batch_Inr: "fetch_batch m r = Inr m' \<Longrightarrow> \<not> request_fails r"
  by (auto simp: fetch_batch_def request_fails_def split: sum.splits)

lemma fetch_batch_other:
  "fetch_batch m r = Inl e \<Longrightarrow> e \<noteq> RequestException \<Longrightarrow> \<not> request_fails r"
  by (auto simp: fetch_batch_def request_fails_def split: sum.splits dest: request_json_error)

lemma requests_of_emit_Get [simp]:
  "requests_of (snd (emit [Get l off] x)) = (l, off) # requests_of (snd x)"
  by (simp add: emit_def)

lemma requests_of_emit_Error [simp]:
  "requests_of (snd (emit [Error_batch off] x)) = requests_of (snd x)"
  by (simp add: emit_def)

lemma fst_emit [simp]: "fst (emit es x) = fst x"
  by (simp add: emit_def)

lemma retry_step:
  "request_fails f \<Longrightarrow> offset < total_systems \<Longrightarrow>
   fetch_batches total_systems limit offset m (f # rs)
     = emit [Get limit offset, Error_batch offset] (fetch_batches total_systems limit offset m rs)"
  using fetch_batch_fails [of m f]
  by (auto simp: emit_def split: sum.splits dest: fetch_batch_Inr)

lemma advance_step:
  "fetch_batch m r = Inr m' \<Longrightarrow> offset < total_systems \<Longrightarrow>
   fetch_batches total_systems limit offset m (r # rs)
     = emit [Get limit offset] (fetch_batches total_systems limit (offset + limit) m' rs)"
  by simp

lemma loop_offsets:
  "i < length (requests_of (snd (fetch_batches total_systems limit offset m rs))) \<Longrightarrow>
   requests_of (snd (fetch_batches total_systems limit offset m rs)) ! i
     = (limit, offset + limit * int (length (filter (\<lambda>r. \<not> request_fails r) (take i rs))))"
proof (induction rs arbitrary: offset m i)
  case Nil
  then show ?case by (auto split: if_splits)
next
  case (Cons r rs)
  show ?case
  proof (cases "offset < total_systems")
    case False
    with Cons.prems show ?thesis by simp
  next
    case True
    show ?thesis
    proof (cases i)
      case 0
      with True show ?thesis by simp
    next
      case (Suc j)
      show ?thesis
      proof (cases "fetch_batch m r")
        case (Inr m')
        with Cons.prems True Suc
        have "j < length (requests_of (snd (fetch_batches total_systems limit (offset + limit) m' rs)))"
          by simp
        from Cons.IH [OF this] Inr True Suc fetch_batch_Inr [OF Inr]
        show ?thesis by (simp add: algebra_simps)
      next
        case (Inl e)
        show ?thesis
        proof (cases "e = RequestException")
          case True
          with Inl have f: "request_fails r" by (simp add: fetch_batch_fails)
          from Cons.prems \<open>offset < total_systems\<close> Suc Inl True
          have "j < length (requests_of (snd (fetch_batches total_systems limit offset m rs)))"
            by simp
          from Cons.IH [OF this] Inl True \<open>offset < total_systems\<close> Suc f
          show ?thesis by simp
        next
          case False
          with Cons.prems \<open>offset < total_systems\<close> Suc Inl show ?thesis by (simp add: emit_def)
        qed
      qed
    qed
  qed
qed

lemma loop_retry_invisible:
  "request_fails f \<Longrightarrow>
   fst (fetch_batches total_systems limit offset m (rs1 @ f # rs2))
     = fst (fetch_batches total_systems limit offset m (rs1 @ rs2))"
proof (induction rs1 arbitrary: offset m)
  case Nil
  show ?case
  proof (cases "offset < total_systems")
    case True
    from retry_step [OF Nil this] show ?thesis
      by (cases rs2) (simp_all add: True)
  next
    case False
    then show ?thesis by (cases rs2) simp_all
  qed
next
  case (Cons r rs1)
  then show ?case by (auto split: sum.splits)
qed


lemma file_events_append [simp]: "file_events (xs @ ys) = file_events xs @ file_events ys"
  by (induction xs rule: file_events.induct) simp_all

lemma file_events_loop [simp]:
  "file_events (snd (fetch_batches total_systems limit offset m rs)) = []"
  by (induction rs arbitrary: offset m) (auto simp: emit_def split: sum.splits)

lemma file_events_collect [simp]: "file_events (snd (collect rs)) = []"
  by (cases rs) (auto simp: emit_def split: sum.splits prod.splits)

lemma fst_fetch:
  "fst (fetch_all_solar_systems fs rs) =
     (case fst (collect rs) of
        Raised e \<Rightarrow> if e = RequestException then Done [] else Raised e
      | Awaiting \<Rightarrow> Awaiting
      | Done m \<Rightarrow> fst (save fs m))"
  by (cases "collect rs") (auto simp: fetch_all_solar_systems_def split: status.splits)

lemma file_events_fetch:
  "file_events (snd (fetch_all_solar_systems fs rs)) =
     (case fst (collect rs) of Done m \<Rightarrow> file_events (snd (save fs m)) | _ \<Rightarrow> [])"
  using file_events_collect [of rs]
  by (cases "collect rs") (auto simp: fetch_all_solar_systems_def emit_def split: status.splits)

lemma collect_retry_invisible:
  "request_fails f \<Longrightarrow>
   fst (collect (r # rs1 @ f # rs2)) = fst (collect (r # rs1 @ rs2))"
  by (auto simp: loop_retry_invisible split: sum.splits prod.splits)

section \<open>Retry and advance\<close>

text \<open>
  Claim C4. In the fetch loop the offset moves only through a successful pass. The
  request number \<open>i\<close> of the loop carries the first offset plus \<open>limit\<close> times the
  number of replies before it that did not fail, so no offset is passed over. A pass whose
  request fails leaves offset and mapping as they were and reports the error; a pass whose
  page is processed stores its items and only then adds \<open>limit\<close>; any other exception
  ends the run.
\<close>

theorem failing_offset_is_retried:
  "(\<forall>i < length (requests_of (snd (fetch_batches total_systems limit offset m rs))).
      requests_of (snd (fetch_batches total_systems limit offset m rs)) ! i
        = (limit, offset + limit * int (length (filter (\<lambda>r. \<not> request_fails r) (take i rs)))))
   \<and> (offset < total_systems \<and> request_fails r \<longrightarrow>
        fetch_batches total_systems limit offset m (r # rs)
          = emit [Get limit offset, Error_batch offset]
              (fetch_batches total_systems limit offset m rs))
   \<and> (offset < total_systems \<and> fetch_batch m r = Inr m' \<longrightarrow>
        fetch_batches total_systems limit offset m (r # rs)
          = emit [Get limit offset] (fetch_batches total_systems limit (offset + limit) m' rs))
   \<and> (offset < total_systems \<and> fetch_batch m r = Inl e \<and> e \<noteq> RequestException \<longrightarrow>
        fetch_batches total_systems limit offset m (r # rs) = (Raised e, [Get limit offset]))"
  using loop_offsets [of _ total_systems limit offset m rs]
    retry_step [of r offset total_systems limit m rs]
  by (auto simp: emit_def)

theorem failing_offset_is_retried_witness:
  "(1::nat) < length (requests_of (snd (fetch_batches 250 100 100 [] [Raises, Reply 500 None])))
   \<and> requests_of (snd (fetch_batches 250 100 100 [] [Raises, Reply 500 None])) ! 1 = (100, 100)
   \<and> (100::int) < 250 \<and> request_fails Raises
   \<and> fetch_batches 250 100 100 [] [Raises, Reply 500 None]
        = emit [Get 100 100, Error_batch 100] (fetch_batches 250 100 100 [] [Reply 500 None])
   \<and> fetch_batch [] (Reply 200 (Some (JObject [(str ''data'', JArray [])]))) = Inr []
   \<and> fetch_batches 250 100 100 [] [Reply 200 (Some (JObject [(str ''data'', JArray [])]))]
        = emit [Get 100 100] (fetch_batches 250 100 200 [] [])
   \<and> fetch_batch [] (Reply 200 (Some JNull)) = Inl TypeError
   \<and> fetch_batches 250 100 100 [] [Reply 200 (Some JNull)] = (Raised TypeError, [Get 100 100])"
  using failing_offset_is_retried [where total_systems = 250 and limit = 100 and offset = 100
      and m = "[]" and rs = "[Reply 500 None]" and r = Raises]
    failing_offset_is_retried [where total_systems = 250 and limit = 100 and offset = 100
      and m = "[]" and rs = "[]" and r = "Reply 200 (Some (JObject [(str ''data'', JArray [])]))"
      and m' = "[]"]
    failing_offset_is_retried [where total_systems = 250 and limit = 100 and offset = 100
      and m = "[]" and rs = "[]" and r = "Reply 200 (Some JNull)" and e = TypeError]
  by (simp add: emit_def fetch_batch_def process_batch_def request_fails_def str_def)

text \<open>
  Claim C5. A failing reply put anywhere after the first reply of a script changes
  neither what the function returns nor what reaches the output file; in the loop the
  failed pass costs one request and one report and hands on the same offset and mapping.
\<close>

theorem single_failure_recovery:
  "rs1 \<noteq> [] \<Longrightarrow> request_fails f \<Longrightarrow>
   fst (fetch_all_solar_systems fs (rs1 @ f # rs2)) = fst (fetch_all_solar_systems fs (rs1 @ rs2))
   \<and> file_events (snd (fetch_all_solar_systems fs (rs1 @ f # rs2)))
       = file_events (snd (fetch_all_solar_systems fs (rs1 @ rs2)))
   \<and> (offset < total_systems \<longrightarrow>
        fetch_batches total_systems limit offset m (f # rs2)
          = emit [Get limit offset, Error_batch offset]
              (fetch_batches total_systems limit offset m rs2))"
proof -
  assume ne: "rs1 \<noteq> []" and f: "request_fails f"
  from ne obtain r rs where rs1: "rs1 = r # rs" by (cases rs1) auto
  have "fst (collect (rs1 @ f # rs2)) = fst (collect (rs1 @ rs2))"
    unfolding rs1 using collect_retry_invisible [OF f] by simp
  then show ?thesis
    using retry_step [OF f] by (simp add: fst_fetch file_events_fetch)
qed

section \<open>Persistence\<close>



lemmas run_defs = fetch_all_solar_systems_def emit_def read_metadata_def estimate_def
  process_batch_def fetch_batch_def store_system_def save_def str_def surrogate_def
  page_def system_def request_fails_def

theorem single_failure_recovery_witness:
  "[page 250 100 [system ''A'' 1]] \<noteq> [] \<and> request_fails (Reply 503 None)
   \<and> fst (fetch_all_solar_systems Writable
         ([page 250 100 [system ''A'' 1]] @ Reply 503 None
            # [page 250 100 [system ''B'' 2], page 250 100 [system ''C'' 3]]))
     = Done [(JString (str ''A''), JInt 1), (JString (str ''B''), JInt 2), (JString (str ''C''), JInt 3)]
   \<and> fst (fetch_all_solar_systems Writable
         ([page 250 100 [system ''A'' 1]]
            @ [page 250 100 [system ''B'' 2], page 250 100 [system ''C'' 3]]))
     = Done [(JString (str ''A''), JInt 1), (JString (str ''B''), JInt 2), (JString (str ''C''), JInt 3)]"
  using single_failure_recovery [where ?rs1.0 = "[page 250 100 [system ''A'' 1]]"
      and f = "Reply 503 None" and fs = Writable
      and ?rs2.0 = "[page 250 100 [system ''B'' 2], page 250 100 [system ''C'' 3]]"]
  by (simp add: run_defs)


section \<open>Counting the passes of the loop\<close>

lemma ceil_div_ceiling: "ceil_div a b = \<lceil>real_of_int a / real_of_int b\<rceil>"
proof -
  have "\<lfloor>real_of_int (- a) / real_of_int b\<rfloor> = (- a) div b"
    by (rule floor_divide_of_int_eq)
  then show ?thesis by (simp add: ceil_div_def ceiling_def)
qed

lemma ceil_div_nonpos: "1 \<le> b \<Longrightarrow> a \<le> 0 \<Longrightarrow> ceil_div a b \<le> 0"
  by (simp add: ceil_div_def pos_imp_zdiv_nonneg_iff)

lemma ceil_div_step: "1 \<le> b \<Longrightarrow> ceil_div a b = 1 + ceil_div (a - b) b"
proof -
  assume "1 \<le> b"
  then have "(- a + b) div b = (- a) div b + 1"
    using div_add_self2 [of b "- a"] by simp
  then show ?thesis by (simp add: ceil_div_def algebra_simps)
qed

lemma ceil_div_pos: "1 \<le> b \<Longrightarrow> 0 < a \<Longrightarrow> 1 \<le> ceil_div a b"
proof -
  assume b: "1 \<le> b" and a: "0 < a"
  then have "(- a) div b < 0" by (simp add: neg_imp_zdiv_neg_iff div_neg_pos_less0)
  then show ?thesis by (simp add: ceil_div_def)
qed

lemma store_systems_isl: "isl (store_systems m ss) = isl (store_systems m' ss)"
  by (induction ss arbitrary: m m') (auto simp: store_system_def split: sum.splits)

lemma fetch_batch_isl: "isl (fetch_batch m r) = isl (fetch_batch m' r)"
  using store_systems_isl [of m _ m']
  by (auto simp: fetch_batch_def process_batch_def split: sum.splits)

lemma succeeds_Inr: "succeeds r \<Longrightarrow> \<exists>m'. fetch_batch m r = Inr m'"
  using fetch_batch_isl [of m r "[]"]
  by (cases "fetch_batch m r"; cases "fetch_batch [] r") (auto simp: succeeds_def)


lemma requests_of_append [simp]: "requests_of (xs @ ys) = requests_of xs @ requests_of ys"
  by (induction xs rule: requests_of.induct) simp_all

lemma map_upt_shift: "f 0 # map (\<lambda>k. f (Suc k)) [0..<n] = map f [0..<Suc n]"
proof -
  have "map f [0..<Suc n] = f 0 # map f [Suc 0..<Suc n]" by (simp add: upt_conv_Cons del: upt_Suc)
  also have "[Suc 0..<Suc n] = map Suc [0..<n]" by (simp add: map_Suc_upt del: upt_Suc)
  finally show ?thesis by (simp add: comp_def del: upt_Suc)
qed

lemma loop_terminates:
  "1 \<le> limit \<Longrightarrow> \<forall>x \<in> set rs. succeeds x \<Longrightarrow>
   ceil_div (total_systems - offset) limit \<le> int (length rs) \<Longrightarrow>
   (\<exists>m'. fst (fetch_batches total_systems limit offset m rs) = Done m')
   \<and> requests_of (snd (fetch_batches total_systems limit offset m rs))
       = map (\<lambda>k. (limit, offset + int k * limit))
           [0..<nat (ceil_div (total_systems - offset) limit)]"
proof (induction rs arbitrary: offset m)
  case Nil
  have "\<not> offset < total_systems"
  proof
    assume "offset < total_systems"
    then have "1 \<le> ceil_div (total_systems - offset) limit"
      using Nil.prems(1) by (simp add: ceil_div_pos)
    with Nil.prems(3) show False by simp
  qed
  with Nil.prems(3) show ?case by simp
next
  case (Cons r rs)
  show ?case
  proof (cases "offset < total_systems")
    case False
    then have "ceil_div (total_systems - offset) limit \<le> 0"
      using Cons.prems(1) by (simp add: ceil_div_nonpos)
    with False show ?thesis by simp
  next
    case True
    from Cons.prems(2) obtain m' where m': "fetch_batch m r = Inr m'"
      using succeeds_Inr [of r m] by auto
    let ?n = "ceil_div (total_systems - (offset + limit)) limit"
    have step: "ceil_div (total_systems - offset) limit = 1 + ?n"
      using ceil_div_step [OF Cons.prems(1), of "total_systems - offset"]
      by (simp add: algebra_simps)
    have pos: "1 \<le> ceil_div (total_systems - offset) limit"
      using True Cons.prems(1) by (simp add: ceil_div_pos)
    have nat_eq: "nat (ceil_div (total_systems - offset) limit) = Suc (nat ?n)"
      using step pos by simp
    have "?n \<le> int (length rs)" using step Cons.prems(3) by simp
    from Cons.IH [OF Cons.prems(1) _ this, of m'] Cons.prems(2)
    have ih: "(\<exists>m''. fst (fetch_batches total_systems limit (offset + limit) m' rs) = Done m'')"
      "requests_of (snd (fetch_batches total_systems limit (offset + limit) m' rs))
         = map (\<lambda>k. (limit, offset + limit + int k * limit)) [0..<nat ?n]"
      by auto
    have "map (\<lambda>k. (limit, offset + int k * limit)) [0..<Suc (nat ?n)]
        = (limit, offset) # map (\<lambda>k. (limit, offset + limit + int k * limit)) [0..<nat ?n]"
      using map_upt_shift [of "\<lambda>k. (limit, offset + int k * limit)" "nat ?n", symmetric]
      by (simp add: algebra_simps del: upt_Suc)
    with ih m' True nat_eq show ?thesis by (simp del: upt_Suc)
  qed
qed

lemma loop_diverges:
  "limit < 0 \<Longrightarrow> offset < total_systems \<Longrightarrow> \<forall>x \<in> set rs. succeeds x \<Longrightarrow>
   fst (fetch_batches total_systems limit offset m rs) = Awaiting
   \<and> requests_of (snd (fetch_batches total_systems limit offset m rs))
       = map (\<lambda>k. (limit, offset + int k * limit)) [0..<Suc (length rs)]"
proof (induction rs arbitrary: offset m)
  case Nil
  then show ?case by simp
next
  case (Cons r rs)
  from Cons.prems(3) obtain m' where m': "fetch_batch m r = Inr m'"
    using succeeds_Inr [of r m] by auto
  have "offset + limit < total_systems" using Cons.prems(1,2) by simp
  from Cons.IH [OF Cons.prems(1) this, of m'] Cons.prems(3)
  have ih: "fst (fetch_batches total_systems limit (offset + limit) m' rs) = Awaiting"
    "requests_of (snd (fetch_batches total_systems limit (offset + limit) m' rs))
       = map (\<lambda>k. (limit, offset + limit + int k * limit)) [0..<Suc (length rs)]"
    by auto
  have "map (\<lambda>k. (limit, offset + int k * limit)) [0..<Suc (Suc (length rs))]
      = (limit, offset) # map (\<lambda>k. (limit, offset + limit + int k * limit)) [0..<Suc (length rs)]"
    using map_upt_shift [of "\<lambda>k. (limit, offset + int k * limit)" "Suc (length rs)", symmetric]
    by (simp add: algebra_simps del: upt_Suc)
  with ih m' Cons.prems(2) show ?case by (simp del: upt_Suc)
qed

lemma collect_first_page:
  "metadata_of r = Some (t, l) \<Longrightarrow> l \<noteq> 0 \<Longrightarrow> succeeds r \<Longrightarrow>
   \<exists>m. collect (r # rs) = emit [Get 100 0] (fetch_batches t l l m rs)"
  by (auto simp: metadata_of_def succeeds_def fetch_batch_def estimate_def
      split: sum.splits option.splits prod.splits)

lemma collect_zero_limit:
  "metadata_of r = Some (t, 0) \<Longrightarrow> collect (r # rs) = (Raised ZeroDivisionError, [Get 100 0])"
  by (auto simp: metadata_of_def estimate_def emit_def split: sum.splits option.splits prod.splits)

lemma requests_of_fetch:
  "requests_of (snd (fetch_all_solar_systems fs rs)) = requests_of (snd (collect rs))"
  by (cases "collect rs")
    (auto simp: fetch_all_solar_systems_def save_def emit_def split: status.splits sink.splits)


lemma loop_not_entered:
  "\<not> offset < total_systems \<Longrightarrow> fetch_batches total_systems limit offset m rs = (Done m, [])"
  by (cases rs) simp_all

lemma fst_save: "fst (save fs m) \<noteq> Awaiting"
  by (simp add: save_def split: sink.splits)

lemma fetch_ends: "fst (collect rs) = Done m \<Longrightarrow> fst (fetch_all_solar_systems fs rs) \<noteq> Awaiting"
  by (simp add: fst_fetch fst_save)

lemma fetch_awaits: "fst (collect rs) = Awaiting \<longleftrightarrow> fst (fetch_all_solar_systems fs rs) = Awaiting"
  by (simp add: fst_fetch fst_save split: status.splits)

lemma shifted_offsets:
  "map (\<lambda>k. (l, l + int k * l)) [0..<n] = map (\<lambda>k. (l, int k * l)) [1..<Suc n]"
proof -
  have "[1..<Suc n] = map Suc [0..<n]" by (simp add: map_Suc_upt del: upt_Suc)
  then show ?thesis by (simp add: comp_def algebra_simps del: upt_Suc)
qed

section \<open>Number of requests\<close>

text \<open>
  Claim C2, as written, fails at \<open>total = 0\<close>: the initial request is sent before the
  total is known, so the run issues one request while the ceiling of \<open>0 / 100\<close> is zero.
\<close>

theorem request_count_counterexample:
  "fetch_all_solar_systems Writable [page 0 100 []] = (Done [], [Get 100 0, Open_output, Dump []])
   \<and> length (requests_of (snd (fetch_all_solar_systems Writable [page 0 100 []]))) = 1
   \<and> \<lceil>real_of_int 0 / real_of_int 100\<rceil> = (0::int)"
  by (simp add: run_defs)

text \<open>
  Claim C2, amended. When the first reply reports a limit of at least 1 and no request
  fails, the run issues the initial request with \<open>limit = 100\<close> at offset 0 and then one
  request with the reported limit at each of the offsets \<open>limit\<close>, \<open>2 * limit\<close>, ...
  below the total: the ceiling of \<open>total / limit\<close> requests when the total is at least 1,
  and the single initial request when it is not. For total 250 and limit 100 these are
  the offsets 0, 100 and 200.
\<close>

theorem request_count:
  "metadata_of r = Some (total_systems, limit) \<Longrightarrow> 1 \<le> limit \<Longrightarrow>
   \<forall>x \<in> set (r # rs). succeeds x \<Longrightarrow>
   \<lceil>real_of_int total_systems / real_of_int limit\<rceil> - 1 \<le> int (length rs) \<Longrightarrow>
   requests_of (snd (fetch_all_solar_systems fs (r # rs)))
     = (100, 0) # map (\<lambda>k. (limit, int k * limit))
         [1..<nat (max 1 \<lceil>real_of_int total_systems / real_of_int limit\<rceil>)]
   \<and> int (length (requests_of (snd (fetch_all_solar_systems fs (r # rs)))))
       = (if 1 \<le> total_systems then \<lceil>real_of_int total_systems / real_of_int limit\<rceil> else 1)
   \<and> fst (fetch_all_solar_systems fs (r # rs)) \<noteq> Awaiting"
proof -
  assume md: "metadata_of r = Some (total_systems, limit)" and l: "1 \<le> limit"
    and ok: "\<forall>x \<in> set (r # rs). succeeds x"
    and len: "\<lceil>real_of_int total_systems / real_of_int limit\<rceil> - 1 \<le> int (length rs)"
  let ?c = "ceil_div total_systems limit"
  have c: "\<lceil>real_of_int total_systems / real_of_int limit\<rceil> = ?c"
    by (simp add: ceil_div_ceiling)
  have step: "ceil_div (total_systems - limit) limit = ?c - 1"
    using ceil_div_step [OF l, of total_systems] by simp
  from md l ok obtain m where m: "collect (r # rs) = emit [Get 100 0] (fetch_batches total_systems limit limit m rs)"
    using collect_first_page [of r total_systems limit rs] by auto
  from len c step have "ceil_div (total_systems - limit) limit \<le> int (length rs)" by simp
  from loop_terminates [OF l _ this, of m] ok
  obtain m' where fin: "fst (fetch_batches total_systems limit limit m rs) = Done m'"
    and reqs: "requests_of (snd (fetch_batches total_systems limit limit m rs))
       = map (\<lambda>k. (limit, limit + int k * limit)) [0..<nat (?c - 1)]"
    using step by auto
  have n: "Suc (nat (?c - 1)) = nat (max 1 ?c)" by simp
  have sign: "1 \<le> total_systems \<Longrightarrow> 1 \<le> ?c" "\<not> 1 \<le> total_systems \<Longrightarrow> ?c \<le> 0"
    using l by (simp_all add: ceil_div_pos ceil_div_nonpos)
  have "requests_of (snd (fetch_all_solar_systems fs (r # rs)))
      = (100, 0) # map (\<lambda>k. (limit, int k * limit)) [1..<nat (max 1 ?c)]"
    using m reqs shifted_offsets [of limit "nat (?c - 1)"] n
    by (simp add: requests_of_fetch del: upt_Suc)
  moreover from this sign
  have "int (length (requests_of (snd (fetch_all_solar_systems fs (r # rs)))))
      = (if 1 \<le> total_systems then ?c else 1)"
    by (cases "1 \<le> total_systems") simp_all
  moreover have "fst (fetch_all_solar_systems fs (r # rs)) \<noteq> Awaiting"
    using m fin by (simp add: fetch_ends)
  ultimately show ?thesis unfolding c by blast
qed


theorem request_count_witness:
  "metadata_of (page 250 100 [system ''A'' 1]) = Some (250, 100) \<and> (1::int) \<le> 100
   \<and> succeeds (page 250 100 [system ''A'' 1]) \<and> succeeds (page 250 100 [system ''B'' 2])
   \<and> succeeds (page 250 100 [])
   \<and> \<lceil>real_of_int 250 / real_of_int 100\<rceil> - 1 \<le> int (length [page 250 100 [system ''B'' 2], page 250 100 []])
   \<and> requests_of (snd (fetch_all_solar_systems Writable
         [page 250 100 [system ''A'' 1], page 250 100 [system ''B'' 2], page 250 100 []]))
       = [(100, 0), (100, 100), (100, 200)]
   \<and> \<lceil>real_of_int 250 / real_of_int 100\<rceil> = (3::int)"
  using request_count [where r = "page 250 100 [system ''A'' 1]" and total_systems = 250
      and limit = 100 and rs = "[page 250 100 [system ''B'' 2], page 250 100 []]" and fs = Writable]
  by (simp add: run_defs metadata_of_def succeeds_def)

section \<open>Termination\<close>

text \<open>
  Claim C10, as written, fails at \<open>limit = 0\<close>: line 35 divides by the limit, so the
  run ends with ZeroDivisionError after the initial request, before the loop is reached;
  no request is issued in a loop.
\<close>

theorem zero_limit_counterexample:
  "metadata_of (page 5 0 []) = Some (5, 0) \<and> \<not> request_fails (page 5 0 [])
   \<and> fetch_all_solar_systems Writable [page 5 0 [], page 5 0 [], page 5 0 []]
       = (Raised ZeroDivisionError, [Get 100 0])"
  by (simp add: run_defs metadata_of_def)

text \<open>
  Claim C10, amended. With a first reply reporting integers \<open>total\<close> and \<open>limit\<close> and
  no request failing, the run ends if and only if \<open>limit \<ge> 0\<close> or \<open>total \<le> limit\<close>: for
  \<open>limit = 0\<close> by ZeroDivisionError after the initial request; for \<open>limit \<ge> 1\<close> once the
  ceiling of \<open>total / limit\<close> minus one further replies have arrived; for a negative limit
  not below the total without entering the loop. For a negative limit below the total
  the run never ends, however many replies arrive: it asks for the offsets \<open>limit\<close>,
  \<open>2 * limit\<close>, \<open>3 * limit\<close>, ... one after the other.
\<close>

theorem loop_termination:
  "metadata_of r = Some (total_systems, limit) \<Longrightarrow> \<forall>x \<in> set (r # rs). succeeds x \<Longrightarrow>
   (limit = 0 \<longrightarrow>
      fetch_all_solar_systems fs (r # rs) = (Raised ZeroDivisionError, [Get 100 0]))
   \<and> (1 \<le> limit \<and> \<lceil>real_of_int total_systems / real_of_int limit\<rceil> - 1 \<le> int (length rs) \<longrightarrow>
      fst (fetch_all_solar_systems fs (r # rs)) \<noteq> Awaiting)
   \<and> (limit < 0 \<and> total_systems \<le> limit \<longrightarrow>
      fst (fetch_all_solar_systems fs (r # rs)) \<noteq> Awaiting
      \<and> requests_of (snd (fetch_all_solar_systems fs (r # rs))) = [(100, 0)])
   \<and> (limit < 0 \<and> limit < total_systems \<longrightarrow>
      fst (fetch_all_solar_systems fs (r # rs)) = Awaiting
      \<and> requests_of (snd (fetch_all_solar_systems fs (r # rs)))
          = (100, 0) # map (\<lambda>k. (limit, int k * limit)) [1..<length rs + 2])"
proof -
  assume md: "metadata_of r = Some (total_systems, limit)"
    and ok: "\<forall>x \<in> set (r # rs). succeeds x"
  have zero: "limit = 0 \<longrightarrow>
      fetch_all_solar_systems fs (r # rs) = (Raised ZeroDivisionError, [Get 100 0])"
    using md collect_zero_limit [of r total_systems rs]
    by (auto simp: fetch_all_solar_systems_def)
  have pos: "1 \<le> limit \<and> \<lceil>real_of_int total_systems / real_of_int limit\<rceil> - 1 \<le> int (length rs) \<longrightarrow>
      fst (fetch_all_solar_systems fs (r # rs)) \<noteq> Awaiting"
  proof
    assume a: "1 \<le> limit \<and> \<lceil>real_of_int total_systems / real_of_int limit\<rceil> - 1 \<le> int (length rs)"
    then have l: "1 \<le> limit" by simp
    from md l ok obtain m
      where m: "collect (r # rs) = emit [Get 100 0] (fetch_batches total_systems limit limit m rs)"
      using collect_first_page [of r total_systems limit rs] by auto
    have "ceil_div (total_systems - limit) limit = ceil_div total_systems limit - 1"
      using ceil_div_step [OF l, of total_systems] by simp
    with a have "ceil_div (total_systems - limit) limit \<le> int (length rs)"
      by (simp add: ceil_div_ceiling)
    from loop_terminates [OF l _ this, of m] ok
    obtain m' where "fst (fetch_batches total_systems limit limit m rs) = Done m'" by auto
    with m show "fst (fetch_all_solar_systems fs (r # rs)) \<noteq> Awaiting"
      by (simp add: fetch_ends)
  qed
  have neg_stop: "limit < 0 \<and> total_systems \<le> limit \<longrightarrow>
      fst (fetch_all_solar_systems fs (r # rs)) \<noteq> Awaiting
      \<and> requests_of (snd (fetch_all_solar_systems fs (r # rs))) = [(100, 0)]"
  proof
    assume a: "limit < 0 \<and> total_systems \<le> limit"
    with md ok obtain m
      where m: "collect (r # rs) = emit [Get 100 0] (fetch_batches total_systems limit limit m rs)"
      using collect_first_page [of r total_systems limit rs] by auto
    from a have "fetch_batches total_systems limit limit m rs = (Done m, [])"
      by (simp add: loop_not_entered)
    with m show "fst (fetch_all_solar_systems fs (r # rs)) \<noteq> Awaiting
      \<and> requests_of (snd (fetch_all_solar_systems fs (r # rs))) = [(100, 0)]"
      by (simp add: fetch_ends requests_of_fetch)
  qed
  have neg_loop: "limit < 0 \<and> limit < total_systems \<longrightarrow>
      fst (fetch_all_solar_systems fs (r # rs)) = Awaiting
      \<and> requests_of (snd (fetch_all_solar_systems fs (r # rs)))
          = (100, 0) # map (\<lambda>k. (limit, int k * limit)) [1..<length rs + 2]"
  proof
    assume a: "limit < 0 \<and> limit < total_systems"
    with md ok obtain m
      where m: "collect (r # rs) = emit [Get 100 0] (fetch_batches total_systems limit limit m rs)"
      using collect_first_page [of r total_systems limit rs] by auto
    from a ok loop_diverges [of limit limit total_systems rs m]
    have d: "fst (fetch_batches total_systems limit limit m rs) = Awaiting"
      "requests_of (snd (fetch_batches total_systems limit limit m rs))
         = map (\<lambda>k. (limit, limit + int k * limit)) [0..<Suc (length rs)]"
      by auto
    from m d(1) have "fst (collect (r # rs)) = Awaiting" by simp
    then have "fst (fetch_all_solar_systems fs (r # rs)) = Awaiting"
      using fetch_awaits [of "r # rs" fs] by blast
    moreover have "requests_of (snd (fetch_all_solar_systems fs (r # rs)))
          = (100, 0) # map (\<lambda>k. (limit, int k * limit)) [1..<length rs + 2]"
      using m d(2) shifted_offsets [of limit "Suc (length rs)"]
      by (simp add: requests_of_fetch del: upt_Suc)
    ultimately show "fst (fetch_all_solar_systems fs (r # rs)) = Awaiting
      \<and> requests_of (snd (fetch_all_solar_systems fs (r # rs)))
          = (100, 0) # map (\<lambda>k. (limit, int k * limit)) [1..<length rs + 2]"
      by simp
  qed
  from zero pos neg_stop neg_loop show ?thesis by blast
qed

theorem loop_termination_witness:
  "metadata_of (page 5 0 []) = Some (5, 0)
   \<and> succeeds (page 5 0 []) \<and> succeeds (page 3 2 []) \<and> succeeds (page (- 5) (- 2) [])
   \<and> succeeds (page 5 (- 1) [])
   \<and> fetch_all_solar_systems Writable [page 5 0 [], page 5 0 []]
       = (Raised ZeroDivisionError, [Get 100 0])
   \<and> metadata_of (page 3 2 []) = Some (3, 2)
   \<and> \<lceil>real_of_int 3 / real_of_int 2\<rceil> - 1 \<le> int (length [page 3 2 []])
   \<and> fst (fetch_all_solar_systems Writable [page 3 2 [], page 3 2 []]) \<noteq> Awaiting
   \<and> metadata_of (page (- 5) (- 2) []) = Some (- 5, - 2)
   \<and> requests_of (snd (fetch_all_solar_systems Writable [page (- 5) (- 2) [], page 3 2 []]))
       = [(100, 0)]
   \<and> metadata_of (page 5 (- 1) []) = Some (5, - 1)
   \<and> fst (fetch_all_solar_systems Writable [page 5 (- 1) [], page 5 (- 1) [], page 5 (- 1) []])
       = Awaiting
   \<and> requests_of (snd (fetch_all_solar_systems Writable
         [page 5 (- 1) [], page 5 (- 1) [], page 5 (- 1) []]))
       = [(100, 0), (- 1, - 1), (- 1, - 2), (- 1, - 3)]"
  using loop_termination [where r = "page 5 0 []" and total_systems = 5 and limit = 0
      and rs = "[page 5 0 []]" and fs = Writable]
    loop_termination [where r = "page 3 2 []" and total_systems = 3 and limit = 2
      and rs = "[page 3 2 []]" and fs = Writable]
    loop_termination [where r = "page (- 5) (- 2) []" and total_systems = "- 5" and limit = "- 2"
      and rs = "[page 3 2 []]" and fs = Writable]
    loop_termination [where r = "page 5 (- 1) []" and total_systems = 5 and limit = "- 1"
      and rs = "[page 5 (- 1) [], page 5 (- 1) []]" and fs = Writable]
  by (simp add: run_defs metadata_of_def succeeds_def)

section \<open>Accumulation\<close>

lemma map_of_setitem: "map_of (setitem m k v) = (map_of m)(k \<mapsto> v)"
  by (induction m) (auto simp: fun_eq_iff)

lemma keys_setitem: "set (map fst (setitem m k v)) = insert k (set (map fst m))"
  by (induction m) auto

lemma distinct_setitem: "distinct (map fst m) \<Longrightarrow> distinct (map fst (setitem m k v))"
  by (induction m) (auto simp: keys_setitem [simplified])

lemma holds_setitem: "holds m es \<Longrightarrow> holds (setitem m k v) (es @ [(k, v)])"
  by (auto simp: holds_def map_of_setitem keys_setitem [simplified] distinct_setitem)

lemma holds_store_system:
  "store_system m s = Inr m' \<Longrightarrow> holds m es \<Longrightarrow> holds m' (es @ entry s)"
  by (auto simp: store_system_def entry_def holds_setitem split: sum.splits)

lemma holds_store_systems:
  "store_systems m ss = Inr m' \<Longrightarrow> holds m es \<Longrightarrow> holds m' (es @ concat (map entry ss))"
proof (induction ss arbitrary: m es)
  case Nil
  then show ?case by simp
next
  case (Cons s ss)
  from Cons.prems(1) obtain m1 where s: "store_system m s = Inr m1"
    and rest: "store_systems m1 ss = Inr m'"
    by (auto split: sum.splits)
  from Cons.IH [OF rest holds_store_system [OF s Cons.prems(2)]]
  show ?case by simp
qed

lemma holds_fetch_batch:
  "fetch_batch m r = Inr m' \<Longrightarrow> holds m es \<Longrightarrow> holds m' (es @ page_entries r)"
  by (auto simp: fetch_batch_def process_batch_def page_entries_def
      split: sum.splits dest: holds_store_systems)

lemma page_entries_fails: "request_fails r \<Longrightarrow> page_entries r = []"
  by (auto simp: page_entries_def request_fails_def split: sum.splits)

lemma holds_loop:
  "fst (fetch_batches total_systems limit offset m rs) = Done m' \<Longrightarrow> holds m es \<Longrightarrow>
   holds m' (es @ concat (map page_entries
     (take (length (requests_of (snd (fetch_batches total_systems limit offset m rs)))) rs)))"
proof (induction rs arbitrary: offset m es)
  case Nil
  then show ?case by (auto split: if_splits)
next
  case (Cons r rs)
  show ?case
  proof (cases "offset < total_systems")
    case False
    with Cons.prems show ?thesis by simp
  next
    case True
    show ?thesis
    proof (cases "fetch_batch m r")
      case (Inr m1)
      with Cons.prems(1) True
      have "fst (fetch_batches total_systems limit (offset + limit) m1 rs) = Done m'" by simp
      from Cons.IH [OF this holds_fetch_batch [OF Inr Cons.prems(2)]] Inr True
      show ?thesis by simp
    next
      case (Inl e)
      show ?thesis
      proof (cases "e = RequestException")
        case False
        with Cons.prems(1) True Inl show ?thesis by simp
      next
        case e: True
        with Inl have "request_fails r" by (simp add: fetch_batch_fails)
        then have none: "page_entries r = []" by (rule page_entries_fails)
        from Cons.prems(1) True Inl e
        have "fst (fetch_batches total_systems limit offset m rs) = Done m'" by simp
        from Cons.IH [OF this Cons.prems(2)] Inl True e none
        show ?thesis by simp
      qed
    qed
  qed
qed

lemma loop_no_request_exception:
  "fst (fetch_batches total_systems limit offset m rs) \<noteq> Raised RequestException"
  by (induction rs arbitrary: offset m) (auto split: sum.splits)

lemma holds_collect: "fst (collect rs) = Done m \<Longrightarrow> holds m (fetched_entries rs)"
proof (cases rs)
  case Nil
  assume "fst (collect rs) = Done m"
  with Nil show ?thesis by simp
next
  case (Cons r rs')
  assume d: "fst (collect rs) = Done m"
  from d Cons obtain data tj lj t l n m0 where
    j: "request_json r = Inr data" and "read_metadata data = Inr (tj, lj)"
    and "estimate tj lj = Inr (t, l, n)" and p: "process_batch [] data = Inr m0"
    and c: "collect rs = emit [Get 100 0] (fetch_batches t l l m0 rs')"
    by (auto split: sum.splits prod.splits)
  from j p have fb: "fetch_batch [] r = Inr m0" by (simp add: fetch_batch_def)
  have "holds [] []" by (simp add: holds_def)
  from holds_fetch_batch [OF fb this] have h0: "holds m0 (page_entries r)" by simp
  from d c have "fst (fetch_batches t l l m0 rs') = Done m" by simp
  from holds_loop [OF this h0] c Cons show ?thesis
    by (simp add: fetched_entries_def)
qed

lemma collect_request_exception:
  "fst (collect rs) = Raised RequestException \<Longrightarrow>
   \<exists>r rs'. rs = r # rs' \<and> request_fails r \<and> snd (collect rs) = [Get 100 0]"
proof (cases rs)
  case Nil
  assume "fst (collect rs) = Raised RequestException"
  with Nil show ?thesis by simp
next
  case (Cons r rs')
  assume a: "fst (collect rs) = Raised RequestException"
  have "request_fails r"
  proof (rule ccontr)
    assume "\<not> request_fails r"
    then obtain data where j: "request_json r = Inr data"
      by (cases "request_json r") (auto simp: request_fails_def)
    from a Cons j show False
      using loop_no_request_exception
      by (auto simp: read_metadata_def estimate_def split: sum.splits prod.splits option.splits if_splits
          dest: getitem_error process_batch_error)
  qed
  with Cons show ?thesis by (auto simp: request_fails_json emit_def)
qed

lemma holds_fetch:
  "fst (fetch_all_solar_systems fs rs) = Done m \<Longrightarrow> holds m (fetched_entries rs)"
proof (cases "fst (collect rs)")
  case (Done m0)
  assume "fst (fetch_all_solar_systems fs rs) = Done m"
  with Done have "m0 = m" by (auto simp: fst_fetch save_def split: sink.splits if_splits)
  with Done show ?thesis by (simp add: holds_collect)
next
  case Awaiting
  assume "fst (fetch_all_solar_systems fs rs) = Done m"
  with Awaiting show ?thesis by (simp add: fst_fetch)
next
  case (Raised e)
  assume d: "fst (fetch_all_solar_systems fs rs) = Done m"
  with Raised have e: "e = RequestException" and m: "m = []"
    by (auto simp: fst_fetch split: if_splits)
  from Raised e obtain r rs' where rs: "rs = r # rs'" and f: "request_fails r"
    and evs: "snd (collect rs) = [Get 100 0]"
    using collect_request_exception [of rs] by auto
  have "fetched_entries rs = []"
    unfolding fetched_entries_def evs using rs page_entries_fails [OF f] by simp
  with m show ?thesis by (simp add: holds_def)
qed


text \<open>
  Claim C3. When the function returns a mapping, the mapping has exactly one item for
  each distinct name among the entries of the fetched pages, and every name is mapped to
  the id of its last entry in fetch order (\<open>map_of\<close> takes the first match of the
  reversed list).
\<close>

theorem last_write_wins:
  "fst (fetch_all_solar_systems fs rs) = Done m \<Longrightarrow>
   length m = card (fst ` set (fetched_entries rs))
   \<and> distinct (map fst m)
   \<and> (\<forall>k. map_of m k = map_of (rev (fetched_entries rs)) k)"
proof -
  assume "fst (fetch_all_solar_systems fs rs) = Done m"
  then have h: "holds m (fetched_entries rs)" by (rule holds_fetch)
  then have "card (fst ` set (fetched_entries rs)) = length (map fst m)"
    using distinct_card [of "map fst m"] by (simp add: holds_def)
  with h show ?thesis by (simp add: holds_def)
qed

theorem last_write_wins_witness:
  "fst (fetch_all_solar_systems Writable
      [page 250 100 [system ''A'' 1, system ''B'' 2], page 250 100 [system ''A'' 3],
       page 250 100 [system ''B'' 4, system ''C'' 5]])
     = Done [(JString (str ''A''), JInt 3), (JString (str ''B''), JInt 4), (JString (str ''C''), JInt 5)]
   \<and> fetched_entries
      [page 250 100 [system ''A'' 1, system ''B'' 2], page 250 100 [system ''A'' 3],
       page 250 100 [system ''B'' 4, system ''C'' 5]]
     = [(JString (str ''A''), JInt 1), (JString (str ''B''), JInt 2), (JString (str ''A''), JInt 3),
        (JString (str ''B''), JInt 4), (JString (str ''C''), JInt 5)]
   \<and> card (fst ` set (fetched_entries
      [page 250 100 [system ''A'' 1, system ''B'' 2], page 250 100 [system ''A'' 3],
       page 250 100 [system ''B'' 4, system ''C'' 5]])) = 3"
  using last_write_wins [where fs = Writable
      and rs = "[page 250 100 [system ''A'' 1, system ''B'' 2], page 250 100 [system ''A'' 3],
       page 250 100 [system ''B'' 4, system ''C'' 5]]"
      and m = "[(JString (str ''A''), JInt 3), (JString (str ''B''), JInt 4), (JString (str ''C''), JInt 5)]"]
  by (simp add: run_defs fetched_entries_def page_entries_def entry_def)

section \<open>The empty mapping\<close>

text \<open>
  Claim C6, as written, fails: when the first page reports a total of zero and no items,
  no request fails, the empty mapping is returned (and written), and \<open>main\<close> prints
  its failure message.
\<close>

theorem empty_mapping_counterexample:
  "\<not> request_fails (page 0 100 [])
   \<and> fetch_all_solar_systems Writable [page 0 100 []]
       = (Done [], [Get 100 0, Open_output, Dump []])
   \<and> main Writable [page 0 100 []] = Done Failed"
  by (simp add: run_defs main_def)

text \<open>
  Claim C6, amended. A failure of the initial request makes the function return the
  empty mapping, which \<open>main\<close> reports as a failure; and a returned mapping is empty
  exactly when the fetched pages held no entry at all, which is also the case of a run
  without any failure whose pages are empty.
\<close>

theorem empty_mapping_meaning:
  "(request_fails r \<longrightarrow>
      fst (fetch_all_solar_systems fs (r # rs)) = Done [] \<and> main fs (r # rs) = Done Failed)
   \<and> (fst (fetch_all_solar_systems fs rs') = Done m \<longrightarrow>
        (m = [] \<longleftrightarrow> fetched_entries rs' = []))"
proof -
  have "request_fails r \<longrightarrow>
      fst (fetch_all_solar_systems fs (r # rs)) = Done [] \<and> main fs (r # rs) = Done Failed"
    by (auto simp: request_fails_json fetch_all_solar_systems_def main_def emit_def)
  moreover have "fst (fetch_all_solar_systems fs rs') = Done m \<longrightarrow>
        (m = [] \<longleftrightarrow> fetched_entries rs' = [])"
  proof
    assume "fst (fetch_all_solar_systems fs rs') = Done m"
    then have "holds m (fetched_entries rs')" by (rule holds_fetch)
    then have "set (map fst m) = fst ` set (fetched_entries rs')" by (simp add: holds_def)
    then show "m = [] \<longleftrightarrow> fetched_entries rs' = []" by (cases m; cases "fetched_entries rs'") auto
  qed
  ultimately show ?thesis by blast
qed

theorem empty_mapping_meaning_witness:
  "request_fails (Reply 404 None)
   \<and> fst (fetch_all_solar_systems Writable [Reply 404 None]) = Done []
   \<and> main Writable [Reply 404 None] = Done Failed
   \<and> fst (fetch_all_solar_systems Writable [page 150 100 [], page 150 100 []]) = Done []
   \<and> fetched_entries [page 150 100 [], page 150 100 []] = []"
  using empty_mapping_meaning [where r = "Reply 404 None" and fs = Writable and rs = "[]"
      and rs' = "[page 150 100 [], page 150 100 []]" and m = "[]"]
  by (simp add: run_defs fetched_entries_def page_entries_def main_def)

section \<open>Total and limit are read once\<close>

lemma map_of_filter_other:
  "k \<noteq> k0 \<Longrightarrow> map_of (filter (\<lambda>kv. fst kv \<noteq> k0) kvs) k = map_of kvs k"
  by (induction kvs) auto

lemma data_not_metadata: "str ''data'' \<noteq> str ''metadata''"
  by (simp add: str_def)

lemma request_json_with_metadata:
  "request_json (with_metadata md r) = Inl e \<longleftrightarrow> request_json r = Inl e"
  by (induction md r rule: with_metadata.induct) (auto split: option.splits)

lemma fetch_batch_with_metadata: "fetch_batch m (with_metadata md r) = fetch_batch m r"
proof (induction md r rule: with_metadata.induct)
  case (1 md status kvs)
  have "map_of (filter (\<lambda>kv. fst kv \<noteq> str ''metadata'') kvs) (str ''data'')
      = map_of kvs (str ''data'')"
    using data_not_metadata by (rule map_of_filter_other)
  then show ?case
    using data_not_metadata by (simp add: fetch_batch_def process_batch_def)
qed simp_all

lemma loop_tamper:
  "fetch_batches total_systems limit offset m (tamper mds rs)
     = fetch_batches total_systems limit offset m rs"
proof (induction mds rs arbitrary: offset m rule: tamper.induct)
  case (1 md mds r rs)
  then show ?case by (simp add: fetch_batch_with_metadata split: sum.splits)
qed simp_all

lemma collect_tamper: "collect (r # tamper mds rs) = collect (r # rs)"
  by (simp add: loop_tamper split: sum.splits prod.splits)

lemma loop_requests_bound:
  "q \<in> set (requests_of (snd (fetch_batches total_systems limit offset m rs))) \<Longrightarrow>
   fst q = limit \<and> snd q < total_systems"
proof (induction rs arbitrary: offset m)
  case Nil
  then show ?case by (auto split: if_splits)
next
  case (Cons r rs)
  then show ?case
    by (auto simp: emit_def split: if_splits sum.splits)
qed

lemma collect_requests_bound:
  "metadata_of r = Some (total_systems, limit) \<Longrightarrow>
   q \<in> set (tl (requests_of (snd (collect (r # rs))))) \<Longrightarrow>
   fst q = limit \<and> snd q < total_systems"
  using loop_requests_bound [of q total_systems limit limit _ rs]
  by (auto simp: metadata_of_def estimate_def emit_def
      split: sum.splits option.splits prod.splits if_splits)

lemma collect_no_metadata:
  "metadata_of r = None \<Longrightarrow> snd (collect (r # rs)) = [Get 100 0]"
  by (auto simp: metadata_of_def estimate_def emit_def
      split: sum.splits option.splits prod.splits if_splits)

text \<open>
  Claim C7. Replacing the \<open>metadata\<close> of the pages after the first by any values at all
  changes nothing in the run. Every request after the first carries the limit the first
  reply reported and an offset below the total it reported; when the first reply yields no
  such pair, no further request is sent.
\<close>

theorem metadata_read_once:
  "fetch_all_solar_systems fs (r # tamper mds rs) = fetch_all_solar_systems fs (r # rs)
   \<and> (metadata_of r = Some (total_systems, limit) \<longrightarrow>
        (\<forall>q \<in> set (tl (requests_of (snd (fetch_all_solar_systems fs (r # rs))))).
           fst q = limit \<and> snd q < total_systems))
   \<and> (metadata_of r = None \<longrightarrow>
        tl (requests_of (snd (fetch_all_solar_systems fs (r # rs)))) = [])"
proof -
  have "fetch_all_solar_systems fs (r # tamper mds rs) = fetch_all_solar_systems fs (r # rs)"
    unfolding fetch_all_solar_systems_def collect_tamper ..
  moreover have "metadata_of r = Some (total_systems, limit) \<longrightarrow>
        (\<forall>q \<in> set (tl (requests_of (snd (fetch_all_solar_systems fs (r # rs))))).
           fst q = limit \<and> snd q < total_systems)"
    unfolding requests_of_fetch using collect_requests_bound [of r total_systems limit _ rs]
    by blast
  moreover have "metadata_of r = None \<longrightarrow>
        tl (requests_of (snd (fetch_all_solar_systems fs (r # rs)))) = []"
    unfolding requests_of_fetch using collect_no_metadata [of r rs] by simp
  ultimately show ?thesis by blast
qed

theorem metadata_read_once_witness:
  "fetch_all_solar_systems Writable
     [page 250 100 [system ''A'' 1],
      with_metadata (JObject [(str ''total'', JInt 0), (str ''limit'', JInt 7)]) (page 250 100 [system ''B'' 2]),
      with_metadata JNull (page 250 100 [system ''C'' 3])]
   = fetch_all_solar_systems Writable
     [page 250 100 [system ''A'' 1], page 250 100 [system ''B'' 2], page 250 100 [system ''C'' 3]]
   \<and> metadata_of (page 250 100 [system ''A'' 1]) = Some (250, 100)
   \<and> tl (requests_of (snd (fetch_all_solar_systems Writable
        [page 250 100 [system ''A'' 1], page 7 3 [system ''B'' 2], page 0 1 [system ''C'' 3]])))
       = [(100, 100), (100, 200)]
   \<and> metadata_of (Reply 200 (Some JNull)) = None
   \<and> tl (requests_of (snd (fetch_all_solar_systems Writable [Reply 200 (Some JNull), Raises]))) = []"
  using metadata_read_once [where fs = Writable and r = "page 250 100 [system ''A'' 1]"
      and mds = "[JObject [(str ''total'', JInt 0), (str ''limit'', JInt 7)], JNull]"
      and rs = "[page 250 100 [system ''B'' 2], page 250 100 [system ''C'' 3]]"
      and total_systems = 250 and limit = 100]
    metadata_read_once [where fs = Writable and r = "page 250 100 [system ''A'' 1]"
      and mds = "[]" and rs = "[page 7 3 [system ''B'' 2], page 0 1 [system ''C'' 3]]"
      and total_systems = 250 and limit = 100]
    metadata_read_once [where fs = Writable and r = "Reply 200 (Some JNull)"
      and mds = "[]" and rs = "[Raises]"]
  by (simp add: run_defs metadata_of_def)

section \<open>Writing the mapping and reading it back\<close>

lemma unhex_hexdigit: "d < 16 \<Longrightarrow> unhex (hexdigit d) = Some d"
  by (auto simp: unhex_def hexdigit_def)

lemma scan_escape: "scanstring (escape c @ cs) = prepend c (scanstring cs)"
proof -
  consider "c = 34" | "c = 92" | "c = 10" | "c = 13" | "c = 9" | "c = 8" | "c = 12"
    | "c < 32" "c \<notin> {34, 92, 10, 13, 9, 8, 12}" | "\<not> c < 32" "c \<notin> {34, 92, 10, 13, 9, 8, 12}"
    by auto
  then show ?thesis
  proof cases
    case 8
    then have d: "c div 16 < 16" "c mod 16 < 16" and v: "16 * (c div 16) + c mod 16 = c"
      by auto
    have z: "unhex 48 = Some 0" by (simp add: unhex_def)
    from 8 have ns: "\<not> surrogate c" by (simp add: surrogate_def)
    from 8 have e: "escape c = [92, 117, 48, 48, hexdigit (c div 16), hexdigit (c mod 16)]"
      by (simp add: escape_def)
    show ?thesis
      unfolding e using v ns by (simp add: z unhex_hexdigit [OF d(1)] unhex_hexdigit [OF d(2)])
  next
    case 9
    then show ?thesis by (simp add: escape_def)
  qed (simp_all add: escape_def unescape_def)
qed

lemma scanstring_escaped:
  "scanstring (concat (map escape s) @ 34 # rest) = Some (s, rest)"
  by (induction s) (simp_all add: scan_escape prepend_def)

lemma decimal_digits: "c \<in> set (decimal n) \<Longrightarrow> digit c"
proof (induction n arbitrary: c rule: decimal.induct)
  case (1 n)
  show ?case
  proof (cases "n < 10")
    case True
    with "1.prems" show ?thesis by (simp add: decimal.simps [of n] digit_def)
  next
    case False
    from "1.prems" False have "c \<in> set (decimal (n div 10)) \<or> c = 48 + n mod 10"
      by (auto simp: decimal.simps [of n])
    then show ?thesis
    proof
      assume "c \<in> set (decimal (n div 10))"
      with "1.IH" False show ?thesis by simp
    next
      assume "c = 48 + n mod 10"
      then show ?thesis by (simp add: digit_def)
    qed
  qed
qed

lemma decimal_nonempty: "decimal n \<noteq> []"
  by (simp add: decimal.simps [of n])

lemma decimal_leading:
  "hd (decimal n) = 48 \<Longrightarrow> decimal n = [48]"
proof (induction n rule: decimal.induct)
  case (1 n)
  show ?case
  proof (cases "n < 10")
    case True
    with "1.prems" show ?thesis by (simp add: decimal.simps [of n] decimal.simps [of 0])
  next
    case False
    then have "hd (decimal n) = hd (decimal (n div 10))"
      using decimal_nonempty [of "n div 10"] by (simp add: decimal.simps [of n])
    with "1.prems" "1.IH" False have "decimal (n div 10) = [48]" by simp
    moreover have "decimal (n div 10) = [48] \<Longrightarrow> n div 10 = 0"
    proof (cases "n div 10 < 10")
      case True
      assume "decimal (n div 10) = [48]"
      with True show ?thesis by (simp add: decimal.simps [of "n div 10"])
    next
      case f: False
      assume "decimal (n div 10) = [48]"
      with f decimal_nonempty [of "n div 10 div 10"] show ?thesis
        by (simp add: decimal.simps [of "n div 10"])
    qed
    ultimately have "n div 10 = 0" by simp
    with False show ?thesis by simp
  qed
qed

lemma decimal_value: "foldl (\<lambda>a d. 10 * a + (d - 48)) 0 (decimal n) = n"
proof (induction n rule: decimal.induct)
  case (1 n)
  show ?case
  proof (cases "n < 10")
    case True
    then show ?thesis by (simp add: decimal.simps [of n])
  next
    case False
    with "1.IH" show ?thesis by (simp add: decimal.simps [of n])
  qed
qed


lemma scan_nat_decimal:
  "\<not> digit c \<Longrightarrow> c \<notin> {46, 101, 69} \<Longrightarrow> scan_nat (decimal n @ c # cs) = Some (n, c # cs)"
proof -
  assume c: "\<not> digit c" "c \<notin> {46, 101, 69}"
  have all: "\<And>x. x \<in> set (decimal n) \<Longrightarrow> digit x" by (rule decimal_digits)
  have t: "takeWhile digit (decimal n @ c # cs) = decimal n"
    using all c(1) by (simp add: takeWhile_append2)
  have d: "dropWhile digit (decimal n @ c # cs) = c # cs"
    using all c(1) by (simp add: dropWhile_append2)
  have lead: "\<not> (hd (decimal n) = 48 \<and> tl (decimal n) \<noteq> [])"
    using decimal_leading [of n] by auto
  show ?thesis
    unfolding scan_nat_def Let_def t d using lead c(2) decimal_nonempty [of n]
    by (simp add: decimal_value)
qed

lemma decimal_hd: "\<exists>x xs. decimal n = x # xs \<and> digit x"
  using decimal_nonempty [of n] decimal_digits [of _ n] by (cases "decimal n") auto

lemma scan_int_repr:
  "\<not> digit c \<Longrightarrow> c \<notin> {46, 101, 69} \<Longrightarrow> scan_int (repr_int v @ c # cs) = Some (v, c # cs)"
proof (cases "v < 0")
  case True
  assume "\<not> digit c" "c \<notin> {46, 101, 69}"
  from scan_nat_decimal [OF this, of "nat (- v)" cs] True
  show ?thesis by (simp add: scan_int_def repr_int_def)
next
  case False
  assume c: "\<not> digit c" "c \<notin> {46, 101, 69}"
  obtain x xs where x: "decimal (nat v) = x # xs" "digit x" using decimal_hd by blast
  then have "x \<noteq> 45" by (auto simp: digit_def)
  with scan_nat_decimal [OF c, of "nat v" cs] False x
  show ?thesis by (simp add: scan_int_def repr_int_def)
qed

lemma repr_int_hd: "\<exists>x xs. repr_int v = x # xs \<and> \<not> whitespace x"
proof (cases "v < 0")
  case True
  then show ?thesis by (simp add: repr_int_def whitespace_def)
next
  case False
  obtain x xs where "decimal (nat v) = x # xs" "digit x" using decimal_hd by blast
  with False show ?thesis by (auto simp: repr_int_def whitespace_def digit_def)
qed

lemma skip_ws_repr: "skip_ws (repr_int v @ cs) = repr_int v @ cs"
  using repr_int_hd [of v] by (auto simp: skip_ws_def)

lemma skip_ws_simps [simp]:
  "skip_ws (32 # cs) = skip_ws cs" "skip_ws (10 # cs) = skip_ws cs"
  "skip_ws (58 # cs) = 58 # cs" "skip_ws (44 # cs) = 44 # cs" "skip_ws (125 # cs) = 125 # cs"
  "skip_ws (34 # cs) = 34 # cs" "skip_ws (123 # cs) = 123 # cs" "skip_ws [] = []"
  by (simp_all add: skip_ws_def whitespace_def)

lemma parse_members_item:
  "\<not> digit c \<Longrightarrow> c \<notin> {46, 101, 69} \<Longrightarrow>
   parse_members (dump_item (k, v) @ c # cs) =
     (case skip_ws (c # cs) of
        [] \<Rightarrow> None
      | sep # cs5 \<Rightarrow>
          if sep = 125 then Some ([(k, v)], cs5)
          else if sep = 44 then
            (case parse_members (skip_ws cs5) of
               None \<Rightarrow> None
             | Some (kvs, rest) \<Rightarrow> Some ((k, v) # kvs, rest))
          else None)"
proof -
  assume c: "\<not> digit c" "c \<notin> {46, 101, 69}"
  have shape: "dump_item (k, v) @ c # cs
      = 34 # (concat (map escape k) @ 34 # (58 # 32 # (repr_int v @ c # cs)))"
    by (simp add: dump_item_def encode_basestring_def)
  show ?thesis
    unfolding shape
    by (subst parse_members.simps)
      (simp add: scanstring_escaped skip_ws_repr scan_int_repr [OF c])
qed

lemma dump_items_hd: "kvs \<noteq> [] \<Longrightarrow> \<exists>xs. dump_items kvs = 34 # xs"
  by (induction kvs rule: dump_items.induct) (simp_all add: dump_item_def encode_basestring_def)

lemma parse_members_dump:
  "d \<noteq> [] \<Longrightarrow> parse_members (dump_items d @ 10 # 125 # rest) = Some (d, rest)"
proof (induction d rule: dump_items.induct)
  case 1
  then show ?case by simp
next
  case (2 kv)
  have "\<not> digit 10" "(10::nat) \<notin> {46, 101, 69}" by (simp_all add: digit_def)
  from parse_members_item [OF this, of "fst kv" "snd kv" "125 # rest"]
  show ?case by simp
next
  case (3 kv kv' kvs)
  obtain xs where xs: "dump_items (kv' # kvs) = 34 # xs"
    using dump_items_hd [of "kv' # kvs"] by auto
  have ih: "parse_members (dump_items (kv' # kvs) @ 10 # 125 # rest) = Some (kv' # kvs, rest)"
    using 3 by simp
  have "\<not> digit 44" "(44::nat) \<notin> {46, 101, 69}" by (simp_all add: digit_def)
  from parse_members_item [OF this, of "fst kv" "snd kv"
      "10 # 32 # 32 # dump_items (kv' # kvs) @ 10 # 125 # rest"]
  have "parse_members (dump_items (kv # kv' # kvs) @ 10 # 125 # rest)
      = (case parse_members (skip_ws (dump_items (kv' # kvs) @ 10 # 125 # rest)) of
           None \<Rightarrow> None
         | Some (kvs', rest') \<Rightarrow> Some ((fst kv, snd kv) # kvs', rest'))"
    by simp
  also have "skip_ws (dump_items (kv' # kvs) @ 10 # 125 # rest)
      = dump_items (kv' # kvs) @ 10 # 125 # rest"
    unfolding xs by simp
  finally show ?case using ih by simp
qed

lemma setitem_fresh: "k \<notin> fst ` set d \<Longrightarrow> setitem d k v = d @ [(k, v)]"
  by (induction d) auto

lemma dict_of_distinct:
  "distinct (map fst kvs) \<Longrightarrow> fst ` set acc \<inter> fst ` set kvs = {} \<Longrightarrow>
   foldl (\<lambda>d kv. setitem d (fst kv) (snd kv)) acc kvs = acc @ kvs"
proof (induction kvs arbitrary: acc)
  case Nil
  then show ?case by simp
next
  case (Cons kv kvs)
  from Cons.prems have fresh: "fst kv \<notin> fst ` set acc" by auto
  have "fst ` set (acc @ [kv]) \<inter> fst ` set kvs = {}"
    using Cons.prems by auto
  from Cons.IH [OF _ this] Cons.prems(1) fresh show ?case
    by (simp add: setitem_fresh)
qed

lemma loads_dumps: "distinct (map fst d) \<Longrightarrow> loads (dumps d) = Some d"
proof (cases "d = []")
  case True
  then show ?thesis by (simp add: loads_def dumps_def)
next
  case False
  assume dist: "distinct (map fst d)"
  obtain xs where xs: "dump_items d = 34 # xs" using dump_items_hd [OF False] by auto
  have m: "parse_members (dump_items d @ [10, 125]) = Some (d, [])"
    using parse_members_dump [OF False, of "[]"] by simp
  have "loads (dumps d) = Some (foldl (\<lambda>d kv. setitem d (fst kv) (snd kv)) [] d)"
    using False m by (simp add: loads_def dumps_def xs)
  with dict_of_distinct [OF dist, of "[]"] show ?thesis by simp
qed

lemma escape_surrogate: "x \<in> set (escape c) \<Longrightarrow> surrogate x \<Longrightarrow> surrogate c"
  by (auto simp: escape_def surrogate_def hexdigit_def split: if_splits)

lemma repr_int_surrogate: "x \<in> set (repr_int v) \<Longrightarrow> \<not> surrogate x"
  by (auto simp: repr_int_def surrogate_def digit_def split: if_splits dest: decimal_digits)

lemma dump_item_surrogate:
  "x \<in> set (dump_item kv) \<Longrightarrow> surrogate x \<Longrightarrow> \<exists>c \<in> set (fst kv). surrogate c"
proof -
  assume x: "x \<in> set (dump_item kv)" and s: "surrogate x"
  from s have "x \<noteq> 34" "x \<noteq> 58" "x \<noteq> 32" by (auto simp: surrogate_def)
  moreover from s have "x \<notin> set (repr_int (snd kv))" using repr_int_surrogate by blast
  ultimately obtain c where "c \<in> set (fst kv)" "x \<in> set (escape c)"
    using x by (auto simp: dump_item_def encode_basestring_def)
  with s show ?thesis using escape_surrogate by blast
qed

lemma dump_items_surrogate:
  "x \<in> set (dump_items d) \<Longrightarrow> surrogate x \<Longrightarrow> \<exists>kv \<in> set d. \<exists>c \<in> set (fst kv). surrogate c"
proof (induction d rule: dump_items.induct)
  case 1
  then show ?case by simp
next
  case (2 kv)
  then show ?case using dump_item_surrogate [of x kv] by simp
next
  case (3 kv kv' kvs)
  from "3.prems"(2) have "x \<noteq> 44" "x \<noteq> 10" "x \<noteq> 32" by (auto simp: surrogate_def)
  with "3.prems"(1) have "x \<in> set (dump_item kv) \<or> x \<in> set (dump_items (kv' # kvs))"
    by auto
  then show ?case
  proof
    assume "x \<in> set (dump_item kv)"
    from dump_item_surrogate [OF this "3.prems"(2)] show ?thesis by simp
  next
    assume "x \<in> set (dump_items (kv' # kvs))"
    from "3.IH" [OF this "3.prems"(2)] show ?thesis by auto
  qed
qed

lemma write_text_dumps:
  "\<forall>kv \<in> set d. \<forall>c \<in> set (fst kv). \<not> surrogate c \<Longrightarrow> write_text (dumps d) = Inr (dumps d)"
proof -
  assume ok: "\<forall>kv \<in> set d. \<forall>c \<in> set (fst kv). \<not> surrogate c"
  have "\<not> (\<exists>x \<in> set (dumps d). surrogate x)"
  proof
    assume "\<exists>x \<in> set (dumps d). surrogate x"
    then obtain x where x: "x \<in> set (dumps d)" "surrogate x" by auto
    moreover from x(2) have "x \<noteq> 123" "x \<noteq> 125" "x \<noteq> 10" "x \<noteq> 32"
      by (auto simp: surrogate_def)
    ultimately have "x \<in> set (dump_items d)"
      by (auto simp: dumps_def split: if_splits)
    from dump_items_surrogate [OF this x(2)] ok show False by auto
  qed
  then show ?thesis by (simp add: write_text_def)
qed


text \<open>
  Claim C8, as written, fails: a Python string may hold a lone surrogate (the JSON
  escape \<open>\ud800\<close> in a response body gives one). With \<open>ensure_ascii=False\<close> it is
  written as it is, the UTF-8 encoder raises UnicodeEncodeError, which the handler for
  IOError does not catch: nothing readable is written and the function raises.
\<close>

theorem round_trip_counterexample:
  "write_text (dumps [([55296], 1)]) = Inl UnicodeEncodeError
   \<and> fetch_all_solar_systems Writable
        [page 1 100 [JObject [(str ''name'', JString [55296]), (str ''id'', JInt 1)]]]
       = (Raised UnicodeEncodeError, [Get 100 0, Open_output])"
  by (simp add: run_defs write_text_def dumps_def dump_item_def encode_basestring_def escape_def)

text \<open>
  Claim C8, amended. For every mapping from names without surrogate code points to
  integer ids, the text \<open>json.dump\<close> produces is written as it is, reading it back
  yields the mapping itself, items in the same order, and the persistence step of the
  function completes with that mapping.
\<close>

theorem round_trip:
  "distinct (map fst d) \<Longrightarrow> \<forall>kv \<in> set d. \<forall>c \<in> set (fst kv). \<not> surrogate c \<Longrightarrow>
   write_text (dumps d) = Inr (dumps d)
   \<and> loads (dumps d) = Some d
   \<and> save Writable (map (\<lambda>kv. (JString (fst kv), JInt (snd kv))) d)
       = (Done (map (\<lambda>kv. (JString (fst kv), JInt (snd kv))) d),
          [Open_output, Dump (map (\<lambda>kv. (JString (fst kv), JInt (snd kv))) d)])"
  by (simp add: write_text_dumps loads_dumps save_def)

theorem round_trip_witness:
  "distinct (map fst [(str ''A'', 7), ([233, 10, 34], - 30)])
   \<and> dumps [(str ''A'', 7)] = [123, 10, 32, 32, 34, 65, 34, 58, 32, 55, 10, 125]
   \<and> write_text (dumps [(str ''A'', 7), ([233, 10, 34], - 30)])
       = Inr (dumps [(str ''A'', 7), ([233, 10, 34], - 30)])
   \<and> loads (dumps [(str ''A'', 7), ([233, 10, 34], - 30)])
       = Some [(str ''A'', 7), ([233, 10, 34], - 30)]"
  using round_trip [of "[(str ''A'', 7), ([233, 10, 34], - 30)]"]
  by (simp add: str_def surrogate_def dumps_def dump_item_def encode_basestring_def escape_def
      repr_int_def decimal.simps [of 7])

end
